theory Spec2Isabelle
  imports Complex_Main "HOL-Library.AList"
begin

section \<open>The bulk-import job engine of \<open>src/contexts/JobContext.tsx\<close>\<close>

text \<open>
  The engine keeps two tables keyed by job id: the published React state \<open>jobs\<close> and the
  mutable side table \<open>jobControlRefs.current\<close> of control-flag objects. \<open>startJob\<close> is an
  \<open>async\<close> function: between two \<open>await\<close>s it runs atomically, and at each \<open>await\<close>
  (\<open>sleep(50)\<close>, \<open>sleep(500)\<close>, \<open>sleep(delay * 1000)\<close>, \<open>fetch\<close>) the timer tick and the
  commands \<open>pauseJob\<close>, \<open>resumeJob\<close>, \<open>cancelJob\<close> or another \<open>startJob\<close> may run.
  The model is a step function that advances the loop from one \<open>await\<close> to the next, and a
  schedule of actions that interleaves these steps with the other operations.

  Conventions of the model:
  \<^item> strings are \<open>char list\<close>; a \<open>char\<close> stands for a code unit below 256;
  \<^item> a JavaScript object used as a dictionary is an association list in insertion order
    (\<open>AList.update\<close> overwrites in place or appends, \<open>AList.delete\<close> removes), because
    \<open>Object.values(jobs).find\<close> depends on that order; job ids are UUIDs, never
    integer-like keys, which JavaScript would enumerate first;
  \<^item> the control-flag objects live in an explicit store \<open>heap\<close>, and \<open>jobControlRefs\<close> maps a
    job id to the address of its object, because the loop keeps a reference
    (\<open>const controls = ...\<close>) that survives \<open>delete jobControlRefs.current[jobId]\<close>;
  \<^item> \<open>setJobs(updater)\<close> is applied to the published state at once (React applies queued
    updaters in order); the \<open>jobs\<close> that \<open>startJob\<close> reads directly (line 116) is the
    snapshot of its closure, a field of the call;
  \<^item> \<open>progress\<close> and \<open>delay\<close> are exact rationals (the source computes in doubles), and
    the numbers inside JSON values are integers;
  \<^item> \<open>toast\<close> calls are recorded by title in \<open>toasts\<close>; console output is not modelled.
\<close>

subsection \<open>Strings: \<open>trim\<close> and \<open>split\<close>\<close>

definition is_space :: "char \<Rightarrow> bool" where
  \<comment> \<open>the white space and line terminators of \<open>String.prototype.trim\<close> below code 256\<close>
  "is_space c =
     (c \<in> set [CHR 0x09, CHR 0x0A, CHR 0x0B, CHR 0x0C, CHR 0x0D, CHR 0x20, CHR 0xA0])"

definition trim :: "string \<Rightarrow> string" where
  "trim s = rev (dropWhile is_space (rev (dropWhile is_space s)))"

fun split_on :: "char \<Rightarrow> string \<Rightarrow> string list" where
  \<comment> \<open>\<open>s.split(c)\<close> for a one-character separator: \<open>"".split(",")\<close> is \<open>[""]\<close>\<close>
  "split_on c [] = [[]]"
| "split_on c (x # xs) =
     (if x = c then [] # split_on c xs
      else (case split_on c xs of [] \<Rightarrow> [[x]] | f # fs \<Rightarrow> (x # f) # fs))"

subsection \<open>Input parsing (lines 96-108)\<close>

record contact =
  email :: string
  firstName :: string
  lastName :: string

definition field_or_empty :: "string list \<Rightarrow> nat \<Rightarrow> string" where
  \<comment> \<open>\<open>parts[k]?.trim() || ''\<close>\<close>
  "field_or_empty parts k = (if k < length parts then trim (parts ! k) else [])"

definition parse_line :: "string \<Rightarrow> contact" where
  \<comment> \<open>\<open>parts[0]\<close> always exists, \<open>split\<close> never returns an empty array\<close>
  "parse_line line =
     (let parts = split_on CHR '','' line
      in \<lparr>email = (case parts of [] \<Rightarrow> [] | p # _ \<Rightarrow> trim p),
          firstName = field_or_empty parts 1,
          lastName = field_or_empty parts 2\<rparr>)"

definition parse_contacts :: "string \<Rightarrow> contact list" where
  "parse_contacts importData =
     filter (\<lambda>c. email c \<noteq> [])
       (map parse_line
         (filter (\<lambda>line. line \<noteq> [])
           (map trim (split_on CHR 0x0A importData))))"

text \<open>The parsing rule as the specification words it, over the raw lines.\<close>

definition spec_fields :: "string \<Rightarrow> string list" where
  "spec_fields line = split_on CHR '','' line"

definition spec_line_kept :: "string \<Rightarrow> bool" where
  "spec_line_kept line = (trim line \<noteq> [] \<and> trim (hd (spec_fields line)) \<noteq> [])"

definition spec_contact :: "string \<Rightarrow> contact" where
  "spec_contact line =
     \<lparr>email = trim (hd (spec_fields line)),
      firstName = (if 1 < length (spec_fields line) then trim (spec_fields line ! 1) else []),
      lastName = (if 2 < length (spec_fields line) then trim (spec_fields line ! 2) else [])\<rparr>"

definition spec_parse :: "string \<Rightarrow> contact list" where
  "spec_parse importData =
     map spec_contact (filter spec_line_kept (split_on CHR 0x0A importData))"

subsection \<open>JSON values and \<open>JSON.stringify(v, null, 2)\<close>\<close>

datatype json =
  JNull | JBool bool | JNum int | JStr string | JArr "json list" | JObj "(string \<times> json) list"

fun join :: "string \<Rightarrow> string list \<Rightarrow> string" where
  "join sep [] = []"
| "join sep [x] = x"
| "join sep (x # y # ys) = x @ sep @ join sep (y # ys)"

definition hex_digit :: "nat \<Rightarrow> char" where
  "hex_digit n = ''0123456789abcdef'' ! (n mod 16)"

definition escape_char :: "char \<Rightarrow> string" where
  "escape_char c =
     (if c = CHR 0x22 then [CHR 0x5C, CHR 0x22]
      else if c = CHR 0x5C then [CHR 0x5C, CHR 0x5C]
      else if c = CHR 0x08 then [CHR 0x5C, CHR ''b'']
      else if c = CHR 0x0C then [CHR 0x5C, CHR ''f'']
      else if c = CHR 0x0A then [CHR 0x5C, CHR ''n'']
      else if c = CHR 0x0D then [CHR 0x5C, CHR ''r'']
      else if c = CHR 0x09 then [CHR 0x5C, CHR ''t'']
      else if (of_char c :: nat) < 32
        then [CHR 0x5C, CHR ''u'', CHR ''0'', CHR ''0'',
              hex_digit (of_char c div 16), hex_digit (of_char c mod 16)]
      else [c])"

definition quote :: "string \<Rightarrow> string" where
  "quote s = [CHR 0x22] @ concat (map escape_char s) @ [CHR 0x22]"

fun digits :: "nat \<Rightarrow> string" where
  "digits n = (if n < 10 then [hex_digit n] else digits (n div 10) @ [hex_digit (n mod 10)])"

definition show_int :: "int \<Rightarrow> string" where
  "show_int n = (if n < 0 then CHR ''-'' # digits (nat (- n)) else digits (nat n))"

definition indent :: "nat \<Rightarrow> string" where
  "indent n = replicate (2 * n) CHR '' ''"

fun stringify_at :: "nat \<Rightarrow> json \<Rightarrow> string" where
  "stringify_at n JNull = ''null''"
| "stringify_at n (JBool b) = (if b then ''true'' else ''false'')"
| "stringify_at n (JNum k) = show_int k"
| "stringify_at n (JStr s) = quote s"
| "stringify_at n (JArr xs) =
     (if xs = [] then ''[]''
      else ''['' @ [CHR 0x0A] @ indent (Suc n)
           @ join ('','' @ [CHR 0x0A] @ indent (Suc n)) (map (stringify_at (Suc n)) xs)
           @ [CHR 0x0A] @ indent n @ '']'')"
| "stringify_at n (JObj kvs) =
     (if kvs = [] then ''{}''
      else ''{'' @ [CHR 0x0A] @ indent (Suc n)
           @ join ('','' @ [CHR 0x0A] @ indent (Suc n))
               (map (\<lambda>(k, v). quote k @ '': '' @ stringify_at (Suc n) v) kvs)
           @ [CHR 0x0A] @ indent n @ ''}'')"

definition JSON_stringify :: "json \<Rightarrow> string" where
  "JSON_stringify v = stringify_at 0 v"

subsection \<open>Data model (lines 9-27, 43)\<close>

datatype job_status = Running | Paused | Completed | Cancelled

datatype result_status = Success | Failed

record ImportResult =
  index :: nat
  r_email :: string
  r_status :: result_status
  r_data :: string

record Job =
  job_id :: string
  accountId :: string
  listId :: string
  listName :: string
  status :: job_status
  progress :: rat
  results :: "ImportResult list"
  totalContacts :: nat
  elapsedTime :: nat
  delay :: rat

record controls =
  isPaused :: bool
  isCancelled :: bool

record Account =
  acc_id :: string
  acc_name :: string
  apiKey :: string

record world =
  jobs :: "(string \<times> Job) list"
  jobControlRefs :: "string \<rightharpoonup> nat"
  heap :: "nat \<Rightarrow> controls"
  fresh :: nat
  toasts :: "string list"

definition toast :: "string \<Rightarrow> world \<Rightarrow> world" where
  "toast title w = w\<lparr>toasts := toasts w @ [title]\<rparr>"

subsection \<open>The timer tick (lines 46-62)\<close>

definition tick_job :: "string \<Rightarrow> (string \<times> Job) list \<times> bool \<Rightarrow> (string \<times> Job) list \<times> bool" where
  \<comment> \<open>one round of \<open>for (const jobId in newJobs)\<close>\<close>
  "tick_job jobId acc =
     (case map_of (fst acc) jobId of
        Some j \<Rightarrow>
          (if status j = Running
           then (AList.update jobId (j\<lparr>elapsedTime := elapsedTime j + 1\<rparr>) (fst acc), True)
           else acc)
      | None \<Rightarrow> acc)"

definition tick_jobs :: "(string \<times> Job) list \<Rightarrow> (string \<times> Job) list" where
  "tick_jobs prevJobs =
     (let r = fold tick_job (map fst prevJobs) (prevJobs, False)
      in if snd r then fst r else prevJobs)"

definition tick :: "world \<Rightarrow> world" where
  "tick w = w\<lparr>jobs := tick_jobs (jobs w)\<rparr>"

subsection \<open>\<open>removeJob\<close> and \<open>updateJobStatus\<close> (lines 65-86)\<close>

definition removeJob :: "string \<Rightarrow> world \<Rightarrow> world" where
  "removeJob jobId w =
     w\<lparr>jobs := AList.delete jobId (jobs w),
       jobControlRefs := (jobControlRefs w)(jobId := None)\<rparr>"

definition updateJobStatus :: "string \<Rightarrow> job_status \<Rightarrow> world \<Rightarrow> world" where
  "updateJobStatus jobId st w =
     (case map_of (jobs w) jobId of
        Some currentJob \<Rightarrow>
          (if status currentJob \<noteq> st
           then w\<lparr>jobs := AList.update jobId
                    (currentJob\<lparr>status := st,
                       progress := (if st = Completed then 100 else progress currentJob)\<rparr>)
                    (jobs w)\<rparr>
           else w)
      | None \<Rightarrow> w)"

subsection \<open>\<open>pauseJob\<close>, \<open>resumeJob\<close>, \<open>cancelJob\<close> (lines 267-289)\<close>

definition pauseJob :: "string \<Rightarrow> world \<Rightarrow> world" where
  "pauseJob jobId w =
     (case jobControlRefs w jobId of
        Some a \<Rightarrow>
          toast ''Job Paused''
            (updateJobStatus jobId Paused
              (w\<lparr>heap := (heap w)(a := (heap w a)\<lparr>isPaused := True\<rparr>)\<rparr>))
      | None \<Rightarrow> w)"

definition resumeJob :: "string \<Rightarrow> world \<Rightarrow> world" where
  "resumeJob jobId w =
     (case jobControlRefs w jobId of
        Some a \<Rightarrow>
          toast ''Job Resumed''
            (updateJobStatus jobId Running
              (w\<lparr>heap := (heap w)(a := (heap w a)\<lparr>isPaused := False\<rparr>)\<rparr>))
      | None \<Rightarrow> w)"

definition cancelJob :: "string \<Rightarrow> world \<Rightarrow> world" where
  "cancelJob jobId w =
     (case jobControlRefs w jobId of
        Some a \<Rightarrow>
          toast ''Job Cancellation Requested''
            (w\<lparr>heap := (heap w)(a := (heap w a)\<lparr>isCancelled := True\<rparr>)\<rparr>)
      | None \<Rightarrow> w)"

subsection \<open>The provider's answer to one submission (lines 205-223, 238-243)\<close>

datatype outcome =
  NetworkFailure
  | Reply nat string "json option"

text \<open>
  \<open>Reply code text parsed\<close> is a response with \<open>response.status = code\<close>,
  \<open>await response.text() = text\<close>, and \<open>parsed\<close> what \<open>JSON.parse(text)\<close> yields
  (\<open>None\<close> when it throws). \<open>NetworkFailure\<close> is a rejected \<open>fetch\<close>: the value caught is
  an \<open>Error\<close> object, which has no enumerable property and serialises as \<open>{}\<close>.
\<close>

datatype thrown = ThrownData json | ThrownError

definition response_data :: "nat \<Rightarrow> string \<Rightarrow> json option \<Rightarrow> json" where
  "response_data code text parsed =
     (if text \<noteq> []
      then (case parsed of
              Some v \<Rightarrow> v
            | None \<Rightarrow> JObj [(''rawResponse'', JStr text), (''status'', JNum (int code))])
      else JObj [(''status'', JNum (int code))])"

definition errorDataString :: "thrown \<Rightarrow> string" where
  \<comment> \<open>\<open>typeof error === 'string' ? error : JSON.stringify(error, null, 2)\<close>\<close>
  "errorDataString e =
     (case e of
        ThrownData (JStr s) \<Rightarrow> s
      | ThrownData v \<Rightarrow> JSON_stringify v
      | ThrownError \<Rightarrow> ''{}'')"

definition submission_result :: "outcome \<Rightarrow> result_status \<times> string" where
  \<comment> \<open>the status and the \<open>data\<close> string of the result entry\<close>
  "submission_result out =
     (case out of
        NetworkFailure \<Rightarrow> (Failed, errorDataString ThrownError)
      | Reply code text parsed \<Rightarrow>
          (if code \<noteq> 201 \<and> code \<noteq> 204
           then (Failed, errorDataString (ThrownData (response_data code text parsed)))
           else (Success, JSON_stringify (response_data code text parsed))))"

subsection \<open>\<open>startJob\<close> (lines 89-264)\<close>

record call =
  accounts :: "Account list"
  closure_jobs :: "(string \<times> Job) list"
  arg_accountId :: string
  arg_listId :: string
  arg_listName :: string
  importData :: string
  arg_delay :: rat
  uuidv4 :: string
  fetch :: "nat \<Rightarrow> outcome"

text \<open>
  A \<open>call\<close> is one invocation of \<open>startJob\<close>: its arguments, the \<open>accounts\<close> and the
  \<open>jobs\<close> of its closure, the id that \<open>uuidv4()\<close> returns in it, and the provider's answer
  \<open>fetch i\<close> to the submission of contact \<open>i\<close> (each contact is submitted at most once).
  \<open>closure_jobs\<close> is the value of \<open>jobs\<close> that the callback closed over when it was created
  (\<open>useCallback\<close> with the dependencies of line 264): the published state of the last
  render, which is behind the current published state when the callback is used again
  before the next render.
\<close>

datatype pc =
  AwaitRemoval
  | PauseWait nat nat
  | DelaySleep nat
  | Fetching nat
  | Finished

text \<open>
  Where a call is suspended: in \<open>sleep(50)\<close> after removing the previous job; in
  \<open>sleep(500)\<close> of the pause loop of iteration \<open>i\<close>, holding the reference \<open>controls\<close>;
  in \<open>sleep(delay * 1000)\<close> of iteration \<open>i\<close>; in the \<open>fetch\<close> of iteration \<open>i\<close>; or returned.
\<close>

definition contacts_of :: "call \<Rightarrow> contact list" where
  "contacts_of c = parse_contacts (importData c)"

definition drop_controls :: "string \<Rightarrow> world \<Rightarrow> world" where
  \<comment> \<open>\<open>delete jobControlRefs.current[jobId]\<close>\<close>
  "drop_controls jobId w = w\<lparr>jobControlRefs := (jobControlRefs w)(jobId := None)\<rparr>"

definition cancelled_in_refs :: "string \<Rightarrow> world \<Rightarrow> bool" where
  \<comment> \<open>\<open>jobControlRefs.current[jobId]?.isCancelled\<close>\<close>
  "cancelled_in_refs jobId w =
     (case jobControlRefs w jobId of Some a \<Rightarrow> isCancelled (heap w a) | None \<Rightarrow> False)"

definition cancel_exit :: "call \<Rightarrow> world \<Rightarrow> world" where
  \<comment> \<open>the three statements of each cancellation branch\<close>
  "cancel_exit c w =
     drop_controls (uuidv4 c) (updateJobStatus (uuidv4 c) Cancelled (toast ''Job Cancelled'' w))"

definition completion :: "call \<Rightarrow> world \<Rightarrow> world" where
  \<comment> \<open>lines 255-262, reached when the loop ends or breaks\<close>
  "completion c w =
     (case jobControlRefs w (uuidv4 c) of
        Some a \<Rightarrow>
          drop_controls (uuidv4 c)
            (updateJobStatus (uuidv4 c) Completed (toast ''Job Completed'' w))
      | None \<Rightarrow> w)"

definition after_delay :: "call \<Rightarrow> nat \<Rightarrow> world \<Rightarrow> pc \<times> world" where
  \<comment> \<open>lines 191-215: the re-check after the delay, then the request is sent\<close>
  "after_delay c i w =
     (if cancelled_in_refs (uuidv4 c) w
      then (Finished, completion c (cancel_exit c w))
      else (Fetching i, w))"

definition after_pause :: "call \<Rightarrow> nat \<Rightarrow> world \<Rightarrow> pc \<times> world" where
  \<comment> \<open>lines 177-189: the re-check after the pause loop, then the delay\<close>
  "after_pause c i w =
     (if cancelled_in_refs (uuidv4 c) w
      then (Finished, completion c (cancel_exit c w))
      else if 0 < i \<and> 0 < arg_delay c then (DelaySleep i, w)
      else after_delay c i w)"

definition pause_check :: "call \<Rightarrow> nat \<Rightarrow> nat \<Rightarrow> world \<Rightarrow> pc \<times> world" where
  \<comment> \<open>lines 167-175: one evaluation of \<open>while (controls.isPaused)\<close>, through the reference\<close>
  "pause_check c i a w =
     (if isPaused (heap w a)
      then (if isCancelled (heap w a)
            then (Finished, cancel_exit c w)
            else (PauseWait i a, w))
      else after_pause c i w)"

definition loop_top :: "call \<Rightarrow> nat \<Rightarrow> world \<Rightarrow> pc \<times> world" where
  \<comment> \<open>lines 150-164: the loop condition and the first checkpoint\<close>
  "loop_top c i w =
     (if i < length (contacts_of c)
      then (case jobControlRefs w (uuidv4 c) of
              None \<Rightarrow> (Finished, completion c w)
            | Some a \<Rightarrow>
                (if isCancelled (heap w a)
                 then (Finished, completion c (cancel_exit c w))
                 else pause_check c i a w))
      else (Finished, completion c w))"

definition record_result :: "call \<Rightarrow> nat \<Rightarrow> result_status \<times> string \<Rightarrow> world \<Rightarrow> world" where
  \<comment> \<open>the two \<open>setJobs\<close> updaters of lines 226-236 and 240-251; the call is suspended in
      the request of contact \<open>i\<close> only for \<open>i\<close> below the number of contacts, and
      \<open>totalContacts\<close> of a job that \<open>startJob\<close> created is positive\<close>
  "record_result c i r w =
     (case map_of (jobs w) (uuidv4 c) of
        None \<Rightarrow> w
      | Some currentJob \<Rightarrow>
          (let newResult = \<lparr>index = i + 1, r_email = email (contacts_of c ! i),
                            r_status = fst r, r_data = snd r\<rparr>;
               updatedResults = newResult # results currentJob;
               newProgress = (of_nat (i + 1) / of_nat (totalContacts currentJob)) * 100
           in w\<lparr>jobs := AList.update (uuidv4 c)
                   (currentJob\<lparr>results := updatedResults, progress := newProgress\<rparr>)
                   (jobs w)\<rparr>))"

definition after_fetch :: "call \<Rightarrow> nat \<Rightarrow> world \<Rightarrow> pc \<times> world" where
  \<comment> \<open>lines 216-253: the answer arrives, the result is recorded, the next iteration starts\<close>
  "after_fetch c i w =
     loop_top c (i + 1) (record_result c i (submission_result (fetch c i)) w)"

definition install :: "call \<Rightarrow> world \<Rightarrow> pc \<times> world" where
  \<comment> \<open>lines 130-150: the new control object and job, then the first iteration\<close>
  "install c w =
     (let a = fresh w;
          w1 = w\<lparr>jobControlRefs := (jobControlRefs w)(uuidv4 c \<mapsto> a),
                 heap := (heap w)(a := \<lparr>isPaused = False, isCancelled = False\<rparr>),
                 fresh := Suc a\<rparr>;
          newJob = \<lparr>job_id = uuidv4 c, accountId = arg_accountId c, listId = arg_listId c,
                    listName = arg_listName c, status = Running, progress = 0, results = [],
                    totalContacts = length (contacts_of c), elapsedTime = 0,
                    delay = arg_delay c\<rparr>;
          w2 = w1\<lparr>jobs := AList.update (uuidv4 c) newJob (jobs w1)\<rparr>
      in loop_top c 0 (toast ''Starting Job'' w2))"

definition discard_existing :: "string \<Rightarrow> world \<Rightarrow> world" where
  \<comment> \<open>lines 117-124: what a start does to the job its account already has\<close>
  "discard_existing existingJobId w =
     removeJob existingJobId
       (case jobControlRefs w existingJobId of
          Some a \<Rightarrow> drop_controls existingJobId w
        | None \<Rightarrow> w)"

definition startJob :: "call \<Rightarrow> world \<Rightarrow> pc \<times> world" where
  \<comment> \<open>lines 89-127: up to the first \<open>await\<close>; the existing job is looked up in the
      \<open>jobs\<close> of the closure (line 116), the removal acts on the shared state\<close>
  "startJob c w =
     (case find (\<lambda>acc. acc_id acc = arg_accountId c) (accounts c) of
        None \<Rightarrow> (Finished, toast ''Account not found'' w)
      | Some account \<Rightarrow>
          (if contacts_of c = [] then (Finished, toast ''No Valid Contacts'' w)
           else (case find (\<lambda>job. accountId job = arg_accountId c)
                        (map snd (closure_jobs c)) of
                   None \<Rightarrow> install c w
                 | Some job \<Rightarrow>
                     (if job_id job \<noteq> []
                      then (AwaitRemoval, discard_existing (job_id job) w)
                      else install c w))))"

definition loop_step :: "call \<Rightarrow> pc \<Rightarrow> world \<Rightarrow> pc \<times> world" where
  \<comment> \<open>the suspended call resumes and runs to its next \<open>await\<close>\<close>
  "loop_step c p w =
     (case p of
        AwaitRemoval \<Rightarrow> install c w
      | PauseWait i a \<Rightarrow> pause_check c i a w
      | DelaySleep i \<Rightarrow> after_delay c i w
      | Fetching i \<Rightarrow> after_fetch c i w
      | Finished \<Rightarrow> (Finished, w))"

subsection \<open>Schedules\<close>

datatype action =
  LoopStep
  | PauseCmd string
  | ResumeCmd string
  | CancelCmd string
  | Tick
  | Discard string

text \<open>
  \<open>Discard j\<close> is the removal that another \<open>startJob\<close> for the same account performs on
  job \<open>j\<close> (lines 117-124).
\<close>

definition apply_action :: "call \<Rightarrow> action \<Rightarrow> pc \<times> world \<Rightarrow> pc \<times> world" where
  "apply_action c act s =
     (case act of
        LoopStep \<Rightarrow> loop_step c (fst s) (snd s)
      | PauseCmd j \<Rightarrow> (fst s, pauseJob j (snd s))
      | ResumeCmd j \<Rightarrow> (fst s, resumeJob j (snd s))
      | CancelCmd j \<Rightarrow> (fst s, cancelJob j (snd s))
      | Tick \<Rightarrow> (fst s, tick (snd s))
      | Discard j \<Rightarrow> (fst s, discard_existing j (snd s)))"

definition run :: "call \<Rightarrow> action list \<Rightarrow> pc \<times> world \<Rightarrow> pc \<times> world" where
  "run c acts s = fold (apply_action c) acts s"

definition job_of :: "world \<Rightarrow> string \<Rightarrow> Job option" where
  "job_of w jobId = map_of (jobs w) jobId"

subsection \<open>Several calls\<close>

text \<open>
  The engine as a whole: the shared state and the calls of \<open>startJob\<close> that have been
  invoked, each with the point where it is suspended. An event invokes \<open>startJob\<close> through
  some callback (the call carries the \<open>jobs\<close> snapshot of that callback), resumes the
  \<open>n\<close>-th call to its next \<open>await\<close>, runs one of the commands, or fires the timer.
\<close>

type_synonym system = "world \<times> (call \<times> pc) list"

datatype event =
  Invoke call
  | Advance nat
  | Pause string
  | Resume string
  | Cancel string
  | Timer

definition sys_step :: "event \<Rightarrow> system \<Rightarrow> system" where
  "sys_step e s =
     (case e of
        Invoke c \<Rightarrow> (snd (startJob c (fst s)), snd s @ [(c, fst (startJob c (fst s)))])
      | Advance n \<Rightarrow>
          (if n < length (snd s)
           then (snd (loop_step (fst (snd s ! n)) (snd (snd s ! n)) (fst s)),
                 (snd s)[n := (fst (snd s ! n),
                               fst (loop_step (fst (snd s ! n)) (snd (snd s ! n)) (fst s)))])
           else s)
      | Pause k \<Rightarrow> (pauseJob k (fst s), snd s)
      | Resume k \<Rightarrow> (resumeJob k (fst s), snd s)
      | Cancel k \<Rightarrow> (cancelJob k (fst s), snd s)
      | Timer \<Rightarrow> (tick (fst s), snd s))"

definition sys_run :: "event list \<Rightarrow> system \<Rightarrow> system" where
  "sys_run es s = fold sys_step es s"

subsection \<open>Auxiliary definitions for the statements and the concrete runs\<close>

definition bump :: "Job \<Rightarrow> Job" where
  \<comment> \<open>what one tick does to one job\<close>
  "bump j = (if status j = Running then j\<lparr>elapsedTime := elapsedTime j + 1\<rparr> else j)"

definition demo_job :: "string \<Rightarrow> job_status \<Rightarrow> Job" where
  "demo_job k st =
     \<lparr>job_id = k, accountId = ''acc-'' @ k, listId = ''7'', listName = ''Leads'', status = st,
      progress = 50, results = [], totalContacts = 2, elapsedTime = 4, delay = 0\<rparr>"

definition no_controls :: controls where
  "no_controls = \<lparr>isPaused = False, isCancelled = False\<rparr>"

definition demo_world :: "(string \<times> Job) list \<Rightarrow> (string \<times> nat) list \<Rightarrow> world" where
  \<comment> \<open>published jobs \<open>js\<close>, control objects at the addresses that \<open>refs\<close> lists, all flags clear\<close>
  "demo_world js refs =
     \<lparr>jobs = js, jobControlRefs = map_of refs, heap = (\<lambda>_. no_controls),
      fresh = length refs, toasts = []\<rparr>"

definition succeeds :: "outcome \<Rightarrow> bool" where
  \<comment> \<open>the answer is a response with status 201 or 204 (the test of line 223)\<close>
  "succeeds out = (case out of NetworkFailure \<Rightarrow> False | Reply code _ _ \<Rightarrow> code = 201 \<or> code = 204)"

definition entry :: "call \<Rightarrow> nat \<Rightarrow> ImportResult" where
  \<comment> \<open>the result entry that the loop records for contact \<open>i\<close>\<close>
  "entry c i =
     \<lparr>index = i + 1, r_email = email (contacts_of c ! i),
      r_status = fst (submission_result (fetch c i)),
      r_data = snd (submission_result (fetch c i))\<rparr>"

text \<open>
  Invariants of a run that no command disturbs. \<open>inflight c i w\<close>: contacts \<open>0, ..., i - 1\<close>
  are recorded, newest first, the job is running and its flags are clear. \<open>final c w\<close>:
  the job is completed with all entries and the flags are deleted. \<open>remaining c p\<close> bounds
  the loop steps that the call still needs at \<open>p\<close>.
\<close>

definition inflight :: "call \<Rightarrow> nat \<Rightarrow> world \<Rightarrow> bool" where
  "inflight c i w =
     (i < length (contacts_of c) \<and> distinct (map fst (jobs w)) \<and>
      (case job_of w (uuidv4 c) of
         None \<Rightarrow> False
       | Some j \<Rightarrow> status j = Running \<and> results j = rev (map (entry c) [0..<i])) \<and>
      (case jobControlRefs w (uuidv4 c) of
         None \<Rightarrow> False
       | Some a \<Rightarrow> \<not> isPaused (heap w a) \<and> \<not> isCancelled (heap w a)))"

definition final :: "call \<Rightarrow> world \<Rightarrow> bool" where
  "final c w =
     (distinct (map fst (jobs w)) \<and> jobControlRefs w (uuidv4 c) = None \<and>
      (case job_of w (uuidv4 c) of
         None \<Rightarrow> False
       | Some j \<Rightarrow> status j = Completed \<and> progress j = 100
           \<and> results j = rev (map (entry c) [0..<length (contacts_of c)])))"

definition good :: "call \<Rightarrow> pc \<times> world \<Rightarrow> bool" where
  "good c s =
     (case fst s of
        AwaitRemoval \<Rightarrow> distinct (map fst (jobs (snd s)))
      | DelaySleep i \<Rightarrow> inflight c i (snd s)
      | Fetching i \<Rightarrow> inflight c i (snd s)
      | Finished \<Rightarrow> final c (snd s)
      | PauseWait i a \<Rightarrow> False)"

definition steps_per_contact :: "call \<Rightarrow> nat" where
  "steps_per_contact c = (if 0 < arg_delay c then 2 else 1)"

definition remaining :: "call \<Rightarrow> pc \<Rightarrow> nat" where
  "remaining c p =
     (case p of
        AwaitRemoval \<Rightarrow> length (contacts_of c) * steps_per_contact c + 1
      | DelaySleep i \<Rightarrow> (length (contacts_of c) - i) * 2
      | Fetching i \<Rightarrow> (length (contacts_of c) - i) * steps_per_contact c - (steps_per_contact c - 1)
      | _ \<Rightarrow> 0)"

definition demo_call :: "rat \<Rightarrow> (nat \<Rightarrow> outcome) \<Rightarrow> call" where
  "demo_call d f =
     \<lparr>accounts = [\<lparr>acc_id = ''acc-j1'', acc_name = ''Main'', apiKey = ''xkeysib''\<rparr>],
      closure_jobs = [], arg_accountId = ''acc-j1'', arg_listId = ''7'', arg_listName = ''Leads'',
      importData = ''a@x.com,Jo,Do'' @ [CHR 0x0A] @ ''b@x.com'',
      arg_delay = d, uuidv4 = ''j2'', fetch = f\<rparr>"

definition created :: outcome where
  "created = Reply 201 ''{}'' (Some (JObj []))"

definition failure_data :: "outcome \<Rightarrow> string" where
  \<comment> \<open>the \<open>data\<close> of a failed entry, case by case\<close>
  "failure_data out =
     (case out of
        NetworkFailure \<Rightarrow> ''{}''
      | Reply code text parsed \<Rightarrow>
          (if text = [] then JSON_stringify (JObj [(''status'', JNum (int code))])
           else (case parsed of
                   None \<Rightarrow> JSON_stringify
                             (JObj [(''rawResponse'', JStr text), (''status'', JNum (int code))])
                 | Some (JStr s) \<Rightarrow> s
                 | Some v \<Rightarrow> JSON_stringify v)))"

definition bad_gateway :: outcome where
  "bad_gateway = Reply 502 ''Bad Gateway'' None"

definition terminal :: "job_status \<Rightarrow> bool" where
  "terminal s = (s = Completed \<or> s = Cancelled)"

definition flags_gone_when_terminal :: "world \<Rightarrow> bool" where
  \<comment> \<open>one entry per job id, and no control flags for a completed or cancelled job\<close>
  "flags_gone_when_terminal w =
     (distinct (map fst (jobs w)) \<and>
      (\<forall>(k, j) \<in> set (jobs w). terminal (status j) \<longrightarrow> jobControlRefs w k = None))"

text \<open>
  \<open>stat w k\<close> is the published status of job \<open>k\<close>. \<open>tinv c p w\<close> is the invariant of a call
  \<open>c\<close> suspended at \<open>p\<close>: a published job in a terminal status has no control flags, and
  when it is the job of \<open>c\<close>, the call has returned.
\<close>

definition stat :: "world \<Rightarrow> string \<Rightarrow> job_status option" where
  "stat w k = map_option status (job_of w k)"

definition tinv :: "call \<Rightarrow> pc \<Rightarrow> world \<Rightarrow> bool" where
  "tinv c p w =
     (distinct (map fst (jobs w)) \<and>
      (\<forall>k s. stat w k = Some s \<longrightarrow> terminal s \<longrightarrow>
         jobControlRefs w k = None \<and> (k = uuidv4 c \<longrightarrow> p = Finished)))"

definition live :: "call \<Rightarrow> world \<Rightarrow> bool" where
  "live c w = (case stat w (uuidv4 c) of Some s \<Rightarrow> \<not> terminal s | None \<Rightarrow> True)"

text \<open>
  \<open>orphaned c w\<close>: the control flags and the published job of the call \<open>c\<close> are gone, as
  after the removal by another start for the same account.
\<close>

definition orphaned :: "call \<Rightarrow> world \<Rightarrow> bool" where
  "orphaned c w = (jobControlRefs w (uuidv4 c) = None \<and> job_of w (uuidv4 c) = None)"

text \<open>
  The published jobs of one account; the well-formedness of a published state in which
  every account has at most one job, every entry is keyed by its job's id and ids are
  non-empty; and the job record that a call installs (lines 133-144).
\<close>

definition jobs_of_account :: "world \<Rightarrow> string \<Rightarrow> (string \<times> Job) list" where
  "jobs_of_account w acct = filter (\<lambda>(k, j). accountId j = acct) (jobs w)"

definition one_job_per_account :: "world \<Rightarrow> bool" where
  "one_job_per_account w =
     (distinct (map fst (jobs w)) \<and> distinct (map (accountId \<circ> snd) (jobs w)) \<and>
      list_all (\<lambda>(k, j). job_id j = k \<and> k \<noteq> []) (jobs w))"

definition newJob :: "call \<Rightarrow> Job" where
  "newJob c =
     \<lparr>job_id = uuidv4 c, accountId = arg_accountId c, listId = arg_listId c,
      listName = arg_listName c, status = Running, progress = 0, results = [],
      totalContacts = length (contacts_of c), elapsedTime = 0, delay = arg_delay c\<rparr>"

text \<open>
  \<open>awaiting ps\<close> lists the accounts of the calls that are in the yield after removing a
  job. An invocation is \<open>allowed\<close> when its callback is current (its snapshot is the
  published state), its new id is non-empty, and no earlier start for the same account is
  in its yield. \<open>sys_inv\<close> is the invariant of the engine under allowed events; \<open>view\<close>
  keeps of every published job what the invariant depends on.
\<close>

definition awaiting :: "(call \<times> pc) list \<Rightarrow> string list" where
  "awaiting ps = map (arg_accountId \<circ> fst) (filter (\<lambda>(c, p). p = AwaitRemoval) ps)"

definition allowed :: "event \<Rightarrow> system \<Rightarrow> bool" where
  "allowed e s =
     (case e of
        Invoke c \<Rightarrow>
          closure_jobs c = jobs (fst s) \<and> uuidv4 c \<noteq> []
          \<and> arg_accountId c \<notin> set (awaiting (snd s))
      | _ \<Rightarrow> True)"

fun allowed_run :: "event list \<Rightarrow> system \<Rightarrow> bool" where
  "allowed_run [] s = True"
| "allowed_run (e # es) s = (allowed e s \<and> allowed_run es (sys_step e s))"

definition sys_inv :: "system \<Rightarrow> bool" where
  "sys_inv s =
     (one_job_per_account (fst s) \<and> distinct (awaiting (snd s)) \<and>
      (\<forall>(c, p) \<in> set (snd s). p = AwaitRemoval \<longrightarrow>
          jobs_of_account (fst s) (arg_accountId c) = [] \<and> uuidv4 c \<noteq> []))"

definition view :: "world \<Rightarrow> (string \<times> string \<times> string) list" where
  "view w = map (\<lambda>(k, j). (k, accountId j, job_id j)) (jobs w)"

definition wf_jobs :: "(string \<times> Job) list \<Rightarrow> bool" where
  "wf_jobs al =
     (distinct (map fst al) \<and> distinct (map (accountId \<circ> snd) al) \<and>
      list_all (\<lambda>(k, j). job_id j = k \<and> k \<noteq> []) al)"

definition first_call :: call where
  "first_call = demo_call 0 (\<lambda>i. created)"

definition second_call :: call where
  "second_call = first_call\<lparr>uuidv4 := ''j3'', closure_jobs := [(''j2'', newJob first_call)]\<rparr>"

definition idle_system :: system where
  "idle_system = (demo_world [] [], [])"

section \<open>Properties\<close>

subsection \<open>Input parsing\<close>

lemma split_on_nonempty: "split_on c xs \<noteq> []"
  by (induction xs) (auto split: list.splits)

lemma split_on_prefix:
  "c \<notin> set ws \<Longrightarrow> split_on c (ws @ xs) = (ws @ hd (split_on c xs)) # tl (split_on c xs)"
proof (induction ws)
  case Nil
  then show ?case using split_on_nonempty [of c xs] by simp
next
  case (Cons w ws)
  then show ?case by auto
qed

lemma split_on_suffix:
  "c \<notin> set ws \<Longrightarrow>
   split_on c (xs @ ws) = butlast (split_on c xs) @ [last (split_on c xs) @ ws]"
proof (induction xs)
  case Nil
  then show ?case using split_on_prefix [of c ws "[]"] by simp
next
  case (Cons x xs)
  then show ?case using split_on_nonempty [of c xs]
    by (auto split: list.splits)
qed

lemma trim_prefix: "\<forall>x \<in> set ws. is_space x \<Longrightarrow> trim (ws @ s) = trim s"
  by (simp add: trim_def dropWhile_append2)

lemma trim_suffix:
  assumes "\<forall>x \<in> set ws. is_space x"
  shows "trim (s @ ws) = trim s"
proof (cases "\<forall>x \<in> set s. is_space x")
  case True
  with assms have a: "dropWhile is_space (s @ ws) = []" and b: "dropWhile is_space s = []"
    by (simp_all only: dropWhile_eq_Nil_conv set_append Un_iff) auto
  show ?thesis unfolding trim_def a b ..
next
  case False
  then have a: "dropWhile is_space (s @ ws) = dropWhile is_space s @ ws"
    by (auto simp: dropWhile_append1)
  have b: "dropWhile is_space (rev ws @ r) = dropWhile is_space r" for r
    using assms by (intro dropWhile_append2) simp
  show ?thesis unfolding trim_def a rev_append b ..
qed

lemma trim_decompose:
  "\<exists>pre suf. l = pre @ trim l @ suf \<and> (\<forall>x \<in> set pre. is_space x) \<and> (\<forall>x \<in> set suf. is_space x)"
proof -
  let ?m = "dropWhile is_space l"
  have 1: "l = takeWhile is_space l @ ?m" by simp
  have "rev (takeWhile is_space (rev ?m) @ dropWhile is_space (rev ?m)) = ?m"
    by (simp only: takeWhile_dropWhile_id rev_rev_ident)
  then have 2: "?m = trim l @ rev (takeWhile is_space (rev ?m))"
    by (simp only: rev_append trim_def)
  have 3: "\<forall>x \<in> set (takeWhile is_space l). is_space x"
    by (auto dest: set_takeWhileD)
  have 4: "\<forall>x \<in> set (rev (takeWhile is_space (rev ?m))). is_space x"
    by (auto dest: set_takeWhileD)
  from 1 2 have "l = takeWhile is_space l @ trim l @ rev (takeWhile is_space (rev ?m))"
    by metis
  with 3 4 show ?thesis by blast
qed

lemma comma_not_space: "\<not> is_space CHR '',''"
  by (simp add: is_space_def)

lemma fields_of_trimmed:
  "map trim (split_on CHR '','' (trim l)) = map trim (split_on CHR '','' l)"
proof -
  obtain pre suf where l: "l = pre @ trim l @ suf"
    and pre: "\<forall>x \<in> set pre. is_space x" and suf: "\<forall>x \<in> set suf. is_space x"
    using trim_decompose by blast
  let ?c = "CHR '',''"
  let ?T = "split_on ?c (trim l)"
  let ?S = "split_on ?c (trim l @ suf)"
  have cpre: "?c \<notin> set pre" and csuf: "?c \<notin> set suf"
    using pre suf comma_not_space by auto
  have T: "?T \<noteq> []" and S: "?S \<noteq> []" by (rule split_on_nonempty)+
  have "map trim ?S = map trim (butlast ?T) @ [trim (last ?T)]"
    by (simp add: split_on_suffix [OF csuf] trim_suffix [OF suf])
  also have "\<dots> = map trim (butlast ?T @ [last ?T])" by simp
  also have "\<dots> = map trim ?T" using T by simp
  finally have a: "map trim ?S = map trim ?T" .
  have "map trim (split_on ?c (pre @ trim l @ suf)) = trim (hd ?S) # map trim (tl ?S)"
    by (simp add: split_on_prefix [OF cpre] trim_prefix [OF pre])
  also have "\<dots> = map trim ?S" using S by (cases ?S) auto
  finally show ?thesis using a l by metis
qed

lemma parse_line_trimmed: "parse_line (trim l) = spec_contact l"
proof -
  let ?P = "split_on CHR '','' (trim l)"
  let ?F = "split_on CHR '','' l"
  have eq: "map trim ?P = map trim ?F" by (rule fields_of_trimmed)
  then have len: "length ?P = length ?F" by (metis length_map)
  have nth: "k < length ?F \<Longrightarrow> trim (?P ! k) = trim (?F ! k)" for k
    using eq len by (metis nth_map)
  have P: "?P \<noteq> []" and F: "?F \<noteq> []" by (rule split_on_nonempty)+
  have hdP: "(case ?P of [] \<Rightarrow> [] | p # _ \<Rightarrow> trim p) = trim (?P ! 0)"
    using P by (cases ?P) auto
  have hdF: "hd ?F = ?F ! 0" using F by (simp add: hd_conv_nth)
  have "0 < length ?F" using F by simp
  from nth [OF this] have e: "trim (?P ! 0) = trim (?F ! 0)" .
  show ?thesis
    unfolding parse_line_def spec_contact_def spec_fields_def Let_def field_or_empty_def hdP hdF e len
    using nth by simp
qed

lemma filter_map_filter_map:
  "filter P (map f (filter Q (map g xs))) = map (f \<circ> g) (filter (\<lambda>x. Q (g x) \<and> P (f (g x))) xs)"
  by (induction xs) auto

text \<open>
  Claim C4. Parsing a raw text yields, in input order, the contacts of exactly those lines
  that are non-empty after trimming and whose first comma-delimited field is non-empty
  after trimming; \<open>email\<close>, \<open>firstName\<close>, \<open>lastName\<close> are the trimmed first, second and
  third fields of the line, the last two empty when the field is absent. The function is
  total: a dropped line raises nothing.
\<close>

theorem parse_contacts_spec: "parse_contacts raw = spec_parse raw"
proof -
  have k: "(\<lambda>x. trim x \<noteq> [] \<and> email (parse_line (trim x)) \<noteq> []) = spec_line_kept"
    by (simp add: fun_eq_iff parse_line_trimmed spec_line_kept_def spec_contact_def)
  have c: "parse_line \<circ> trim = spec_contact"
    by (simp add: fun_eq_iff parse_line_trimmed)
  show ?thesis
    unfolding parse_contacts_def spec_parse_def filter_map_filter_map k c ..
qed

lemma parse_contacts_example:
  "parse_contacts (''a@x.com,Jo,Do'' @ [CHR 0x0A, CHR 0x0A] @ '' b@x.com '' @ [CHR 0x0A]
                   @ '',NoEmail'')
     = [\<lparr>email = ''a@x.com'', firstName = ''Jo'', lastName = ''Do''\<rparr>,
        \<lparr>email = ''b@x.com'', firstName = [], lastName = []\<rparr>]"
  by (simp add: parse_contacts_def parse_line_def trim_def is_space_def field_or_empty_def)

subsection \<open>Association lists with one entry per key\<close>

lemma update_unique_key:
  "k \<notin> fst ` set pre \<Longrightarrow> AList.update k v (pre @ (k, j) # ys) = pre @ (k, v) # ys"
  by (induction pre) auto

lemma map_of_unique_key:
  "k \<notin> fst ` set pre \<Longrightarrow> map_of (pre @ (k, j) # ys) k = Some j"
  by (induction pre) auto

subsection \<open>The timer tick\<close>

lemma fold_tick_job:
  "distinct (map fst ys) \<Longrightarrow> fst ` set pre \<inter> fst ` set ys = {} \<Longrightarrow>
   fold tick_job (map fst ys) (pre @ ys, b)
     = (pre @ map (\<lambda>(k, j). (k, bump j)) ys, b \<or> (\<exists>j \<in> snd ` set ys. status j = Running))"
proof (induction ys arbitrary: pre b)
  case Nil
  then show ?case by simp
next
  case (Cons p ys)
  obtain k j where p: "p = (k, j)" by (cases p)
  from Cons.prems p have k: "k \<notin> fst ` set pre" and d: "distinct (map fst ys)"
    and k2: "k \<notin> fst ` set ys" and disj: "fst ` set pre \<inter> fst ` set ys = {}"
    by auto
  show ?case
  proof (cases "status j = Running")
    case True
    have step: "tick_job k (pre @ (k, j) # ys, b)
                  = ((pre @ [(k, j\<lparr>elapsedTime := elapsedTime j + 1\<rparr>)]) @ ys, True)"
      using True k
      by (simp add: tick_job_def map_of_unique_key update_unique_key del: map_of_append)
    have "fst ` set (pre @ [(k, j\<lparr>elapsedTime := elapsedTime j + 1\<rparr>)]) \<inter> fst ` set ys = {}"
      using disj k2 by auto
    from Cons.IH [OF d this, of True] step True p show ?thesis
      by (simp add: bump_def)
  next
    case False
    have step: "tick_job k (pre @ (k, j) # ys, b) = ((pre @ [(k, j)]) @ ys, b)"
      using False k by (simp add: tick_job_def map_of_unique_key del: map_of_append)
    have "fst ` set (pre @ [(k, j)]) \<inter> fst ` set ys = {}"
      using disj k2 by auto
    from Cons.IH [OF d this, of b] step False p show ?thesis
      by (simp add: bump_def)
  qed
qed

lemma bump_idle:
  "(\<forall>j \<in> snd ` set js. status j \<noteq> Running) \<Longrightarrow> map (\<lambda>(k, j). (k, bump j)) js = js"
  by (induction js) (auto simp: bump_def)

lemma tick_jobs_eq:
  assumes "distinct (map fst js)"
  shows "tick_jobs js = map (\<lambda>(k, j). (k, bump j)) js"
proof -
  have f: "fold tick_job (map fst js) (js, False)
        = (map (\<lambda>(k, j). (k, bump j)) js, \<exists>j \<in> snd ` set js. status j = Running)"
    using fold_tick_job [OF assms, of "[]" False] by simp
  show ?thesis
  proof (cases "\<exists>j \<in> snd ` set js. status j = Running")
    case True
    then show ?thesis using f by (simp add: tick_jobs_def)
  next
    case False
    then show ?thesis using f bump_idle [of js] by (simp add: tick_jobs_def)
  qed
qed

text \<open>
  Claim C8. One tick adds exactly 1 to \<open>elapsedTime\<close> of every published job whose status
  is \<open>running\<close> and leaves every other job, the order of the jobs, the control flags and the
  notifications as they are; with no running job the tick returns the state it was given.
  The published state is a JavaScript object, so it holds one entry per job id.
\<close>

theorem tick_elapsed_time:
  assumes "distinct (map fst (jobs w))"
  shows "jobs (tick w)
           = map (\<lambda>(k, j). (k, if status j = Running
                                then j\<lparr>elapsedTime := elapsedTime j + 1\<rparr> else j)) (jobs w)
         \<and> jobControlRefs (tick w) = jobControlRefs w
         \<and> heap (tick w) = heap w
         \<and> toasts (tick w) = toasts w
         \<and> ((\<forall>j \<in> snd ` set (jobs w). status j \<noteq> Running) \<longrightarrow> tick w = w)"
proof -
  have eq: "tick_jobs (jobs w) = map (\<lambda>(k, j). (k, bump j)) (jobs w)"
    by (rule tick_jobs_eq [OF assms])
  have b: "(\<lambda>(k, j). (k, bump j))
      = (\<lambda>(k, j). (k, if status j = Running then j\<lparr>elapsedTime := elapsedTime j + 1\<rparr> else j))"
    by (simp add: bump_def fun_eq_iff)
  show ?thesis using eq bump_idle [of "jobs w"] unfolding b [symmetric]
    by (auto simp: tick_def)
qed

theorem tick_elapsed_time_witness:
  "jobs (tick (demo_world [(''a'', demo_job ''a'' Running), (''b'', demo_job ''b'' Paused),
                           (''c'', demo_job ''c'' Completed), (''d'', demo_job ''d'' Cancelled)] []))
     = [(''a'', (demo_job ''a'' Running)\<lparr>elapsedTime := 5\<rparr>), (''b'', demo_job ''b'' Paused),
        (''c'', demo_job ''c'' Completed), (''d'', demo_job ''d'' Cancelled)]
   \<and> tick (demo_world [(''b'', demo_job ''b'' Paused)] [])
       = demo_world [(''b'', demo_job ''b'' Paused)] []"
  using tick_elapsed_time [of "demo_world [(''a'', demo_job ''a'' Running),
            (''b'', demo_job ''b'' Paused), (''c'', demo_job ''c'' Completed),
            (''d'', demo_job ''d'' Cancelled)] []"]
    tick_elapsed_time [of "demo_world [(''b'', demo_job ''b'' Paused)] []"]
  by (simp add: demo_world_def demo_job_def)

subsection \<open>The commands\<close>

text \<open>
  Claim C9. Calling \<open>cancelJob\<close> twice in a row on one id leaves the control flags (the
  table and the flag objects) and the published jobs as one call leaves them. The second
  call shows its notification again; the claim is about the flags and the published state.
\<close>

theorem cancelJob_twice:
  "jobs (cancelJob jobId (cancelJob jobId w)) = jobs (cancelJob jobId w)
   \<and> jobControlRefs (cancelJob jobId (cancelJob jobId w)) = jobControlRefs (cancelJob jobId w)
   \<and> heap (cancelJob jobId (cancelJob jobId w)) = heap (cancelJob jobId w)"
  by (simp add: cancelJob_def toast_def split: option.splits)

text \<open>
  Claim C10. For a job whose control flags exist, \<open>pauseJob\<close> and \<open>resumeJob\<close> replace the
  published job by the same record with \<open>status\<close> set to \<open>paused\<close>, respectively \<open>running\<close>
  (every other field and every other job as before), and leave the published state
  identical when the job already has that status.
\<close>

theorem pause_resume_frame:
  assumes "jobControlRefs w jobId = Some a" and "job_of w jobId = Some j"
  shows "jobs (pauseJob jobId w) = AList.update jobId (j\<lparr>status := Paused\<rparr>) (jobs w)
       \<and> jobs (resumeJob jobId w) = AList.update jobId (j\<lparr>status := Running\<rparr>) (jobs w)
       \<and> job_of (pauseJob jobId w) = (job_of w)(jobId \<mapsto> j\<lparr>status := Paused\<rparr>)
       \<and> job_of (resumeJob jobId w) = (job_of w)(jobId \<mapsto> j\<lparr>status := Running\<rparr>)
       \<and> (status j = Paused \<longrightarrow> jobs (pauseJob jobId w) = jobs w)
       \<and> (status j = Running \<longrightarrow> jobs (resumeJob jobId w) = jobs w)"
  using assms
  by (auto simp: pauseJob_def resumeJob_def updateJobStatus_def toast_def job_of_def
      AList.update_triv update_conv' fun_upd_idem)

theorem pause_resume_frame_witness:
  "jobs (pauseJob ''a'' (demo_world [(''a'', demo_job ''a'' Running),
                                     (''b'', demo_job ''b'' Running)] [(''a'', 0), (''b'', 1)]))
     = [(''a'', demo_job ''a'' Paused), (''b'', demo_job ''b'' Running)]
   \<and> jobs (resumeJob ''a'' (demo_world [(''a'', demo_job ''a'' Running),
                                      (''b'', demo_job ''b'' Running)] [(''a'', 0), (''b'', 1)]))
     = [(''a'', demo_job ''a'' Running), (''b'', demo_job ''b'' Running)]"
  using pause_resume_frame [of "demo_world [(''a'', demo_job ''a'' Running),
            (''b'', demo_job ''b'' Running)] [(''a'', 0), (''b'', 1)]" "''a''" 0
            "demo_job ''a'' Running"]
  by (simp add: demo_world_def demo_job_def job_of_def)

subsection \<open>Runs without commands\<close>

lemma fetch_step_good:
  assumes g: "inflight c i w"
  shows "good c (after_fetch c i w)
         \<and> remaining c (fst (after_fetch c i w)) \<le> remaining c (Fetching i) - 1"
proof -
  from g obtain j a where i: "i < length (contacts_of c)"
    and dist: "distinct (map fst (jobs w))"
    and j: "job_of w (uuidv4 c) = Some j" and st: "status j = Running"
    and res: "results j = rev (map (entry c) [0..<i])"
    and a: "jobControlRefs w (uuidv4 c) = Some a"
    and np: "\<not> isPaused (heap w a)" and nc: "\<not> isCancelled (heap w a)"
    unfolding inflight_def by (auto split: option.splits)
  let ?j' = "j\<lparr>results := entry c i # results j,
               progress := (of_nat (i + 1) / of_nat (totalContacts j)) * 100\<rparr>"
  let ?w' = "w\<lparr>jobs := AList.update (uuidv4 c) ?j' (jobs w)\<rparr>"
  have rr: "record_result c i (submission_result (fetch c i)) w = ?w'"
    using j by (simp add: record_result_def job_of_def entry_def Let_def)
  have dist': "distinct (map fst (jobs ?w'))"
    using dist by (simp add: distinct_update)
  have res': "results ?j' = rev (map (entry c) [0..<Suc i])"
    using res by simp
  show ?thesis
  proof (cases "Suc i < length (contacts_of c)")
    case True
    have "after_fetch c i w
            = ((if 0 < arg_delay c then DelaySleep (Suc i) else Fetching (Suc i)), ?w')"
      using True a np nc
      by (simp add: after_fetch_def rr loop_top_def pause_check_def after_pause_def
          after_delay_def cancelled_in_refs_def)
    moreover have "inflight c (Suc i) ?w'"
      unfolding inflight_def using True dist' res' st a np nc
      by (simp add: job_of_def update_conv')
    ultimately show ?thesis using i True
      by (auto simp: good_def remaining_def steps_per_contact_def)
  next
    case False
    with i have n: "Suc i = length (contacts_of c)" by simp
    let ?w'' = "drop_controls (uuidv4 c) (updateJobStatus (uuidv4 c) Completed (toast ''Job Completed'' ?w'))"
    have "after_fetch c i w = (Finished, ?w'')"
      using False a by (simp add: after_fetch_def rr loop_top_def completion_def)
    moreover have "final c ?w''"
      unfolding final_def using dist res' st n
      by (simp add: drop_controls_def updateJobStatus_def toast_def job_of_def update_conv'
          distinct_update)
    ultimately show ?thesis using n by (simp add: good_def remaining_def)
  qed
qed

lemma delay_step_good:
  assumes g: "inflight c i w"
  shows "after_delay c i w = (Fetching i, w)"
  using g by (auto simp: inflight_def after_delay_def cancelled_in_refs_def split: option.splits)

lemma install_good:
  assumes n: "contacts_of c \<noteq> []"
    and dist: "distinct (map fst (jobs w))"
  shows "\<exists>w'. install c w = (Fetching 0, w') \<and> inflight c 0 w'"
  using assms
  by (simp add: install_def Let_def loop_top_def pause_check_def after_pause_def
      after_delay_def cancelled_in_refs_def toast_def inflight_def job_of_def update_conv'
      distinct_update)

lemma startJob_good:
  assumes "find (\<lambda>acc. acc_id acc = arg_accountId c) (accounts c) = Some account"
    and n: "contacts_of c \<noteq> []"
    and dist: "distinct (map fst (jobs w))"
  shows "good c (startJob c w)
         \<and> remaining c (fst (startJob c w)) \<le> length (contacts_of c) * steps_per_contact c + 1"
proof -
  have disc: "distinct (map fst (jobs (discard_existing k w)))" for k
    using dist
    by (simp add: discard_existing_def removeJob_def drop_controls_def distinct_delete
        split: option.splits)
  from install_good [OF n dist] obtain w' where
    i: "install c w = (Fetching 0, w')" "inflight c 0 w'" by blast
  show ?thesis
    using assms(1) n i disc
    by (auto simp: startJob_def good_def remaining_def steps_per_contact_def
        split: option.splits)
qed

lemma loop_step_good:
  assumes n: "contacts_of c \<noteq> []" and g: "good c (p, w)"
  shows "good c (loop_step c p w) \<and> remaining c (fst (loop_step c p w)) \<le> remaining c p - 1"
proof (cases p)
  case AwaitRemoval
  with g have "distinct (map fst (jobs w))" by (simp add: good_def)
  from install_good [OF n this] AwaitRemoval show ?thesis
    by (auto simp: loop_step_def good_def remaining_def steps_per_contact_def)
next
  case (Fetching i)
  with g have "inflight c i w" by (simp add: good_def)
  from fetch_step_good [OF this] Fetching show ?thesis
    by (simp add: loop_step_def)
next
  case (DelaySleep i)
  with g have i: "inflight c i w" by (simp add: good_def)
  then have "i < length (contacts_of c)" by (simp add: inflight_def)
  with delay_step_good [OF i] DelaySleep i show ?thesis
    by (auto simp: loop_step_def good_def remaining_def steps_per_contact_def)
next
  case Finished
  with g show ?thesis by (simp add: loop_step_def good_def remaining_def)
qed (use g in \<open>simp_all add: good_def\<close>)


lemma job_of_tick:
  "distinct (map fst (jobs w)) \<Longrightarrow> job_of (tick w) k = map_option bump (job_of w k)"
  by (simp add: job_of_def tick_def tick_jobs_eq map_of_map)

lemma distinct_tick:
  "distinct (map fst (jobs w)) \<Longrightarrow> distinct (map fst (jobs (tick w)))"
  by (simp add: tick_def tick_jobs_eq comp_def case_prod_beta)

lemma tick_heap: "jobControlRefs (tick w) = jobControlRefs w" "heap (tick w) = heap w"
  by (simp_all add: tick_def)

lemma tick_good: "good c (p, w) \<Longrightarrow> good c (p, tick w)"
proof (cases p)
  case AwaitRemoval
  assume "good c (p, w)"
  with AwaitRemoval show ?thesis by (simp add: good_def distinct_tick)
next
  case (Fetching i)
  assume "good c (p, w)"
  with Fetching have g: "inflight c i w" by (simp add: good_def)
  then have "inflight c i (tick w)"
    unfolding inflight_def
    by (auto simp: job_of_tick distinct_tick bump_def tick_heap split: option.splits)
  with Fetching show ?thesis by (simp add: good_def)
next
  case (DelaySleep i)
  assume "good c (p, w)"
  with DelaySleep have g: "inflight c i w" by (simp add: good_def)
  then have "inflight c i (tick w)"
    unfolding inflight_def
    by (auto simp: job_of_tick distinct_tick bump_def tick_heap split: option.splits)
  with DelaySleep show ?thesis by (simp add: good_def)
next
  case Finished
  assume "good c (p, w)"
  with Finished have "final c w" by (simp add: good_def)
  then have "final c (tick w)"
    unfolding final_def
    by (auto simp: job_of_tick distinct_tick bump_def tick_heap split: option.splits)
  with Finished show ?thesis by (simp add: good_def)
qed (simp_all add: good_def)

lemma remaining_zero:
  assumes "good c s" and "remaining c (fst s) = 0"
  shows "fst s = Finished"
proof (cases "fst s")
  case (Fetching i)
  with assms(1) have "i < length (contacts_of c)" by (simp add: good_def inflight_def)
  with assms(2) Fetching show ?thesis
    by (simp add: remaining_def steps_per_contact_def split: if_splits)
next
  case (DelaySleep i)
  with assms(1) have "i < length (contacts_of c)" by (simp add: good_def inflight_def)
  with assms(2) DelaySleep show ?thesis by (simp add: remaining_def)
qed (use assms in \<open>simp_all add: good_def remaining_def\<close>)

lemma run_good:
  assumes n: "contacts_of c \<noteq> []"
  shows "set acts \<subseteq> {LoopStep, Tick} \<Longrightarrow> good c s
         \<Longrightarrow> remaining c (fst s) \<le> count_list acts LoopStep
         \<Longrightarrow> fst (run c acts s) = Finished \<and> final c (snd (run c acts s))"
proof (induction acts arbitrary: s)
  case Nil
  then have "remaining c (fst s) = 0" by simp
  from remaining_zero [OF Nil.prems(2) this] Nil.prems(2) show ?case
    by (simp add: run_def good_def)
next
  case (Cons act acts)
  obtain p w where s: "s = (p, w)" by (cases s)
  from Cons.prems(1) have sub: "set acts \<subseteq> {LoopStep, Tick}"
    and act: "act = LoopStep \<or> act = Tick" by auto
  have r: "run c (act # acts) s = run c acts (apply_action c act s)"
    by (simp add: run_def)
  from act show ?case
  proof
    assume L: "act = LoopStep"
    from loop_step_good [OF n] Cons.prems(2) s
    have g: "good c (loop_step c p w)"
      and m: "remaining c (fst (loop_step c p w)) \<le> remaining c p - 1" by auto
    from Cons.prems(3) L s m
    have "remaining c (fst (loop_step c p w)) \<le> count_list acts LoopStep" by simp
    from Cons.IH [OF sub g this] show ?thesis
      unfolding r using L s by (simp add: apply_action_def)
  next
    assume T: "act = Tick"
    from tick_good Cons.prems(2) s have g: "good c (p, tick w)" by simp
    from Cons.prems(3) T s have "remaining c (fst (p, tick w)) \<le> count_list acts LoopStep"
      by simp
    from Cons.IH [OF sub g this] show ?thesis
      unfolding r using T s by (simp add: apply_action_def)
  qed
qed

lemma demo_contacts:
  "contacts_of (demo_call d f)
     = [\<lparr>email = ''a@x.com'', firstName = ''Jo'', lastName = ''Do''\<rparr>,
        \<lparr>email = ''b@x.com'', firstName = [], lastName = []\<rparr>]"
  by (simp add: contacts_of_def demo_call_def parse_contacts_def parse_line_def trim_def
      is_space_def field_or_empty_def)

lemma demo_call_sel:
  "uuidv4 (demo_call d f) = ''j2''" "arg_delay (demo_call d f) = d" "fetch (demo_call d f) = f"
  "arg_accountId (demo_call d f) = ''acc-j1''"
  "accounts (demo_call d f) = [\<lparr>acc_id = ''acc-j1'', acc_name = ''Main'', apiKey = ''xkeysib''\<rparr>]"
  "arg_listName (demo_call d f) = ''Leads''" "arg_listId (demo_call d f) = ''7''"
  "closure_jobs (demo_call d f) = []"
  by (simp_all add: demo_call_def)

lemma contacts_of_closure [simp]: "contacts_of (c\<lparr>closure_jobs := js\<rparr>) = contacts_of c"
  by (simp add: contacts_of_def)

lemma final_results:
  assumes "final c w"
  obtains j where "job_of w (uuidv4 c) = Some j" "status j = Completed" "progress j = 100"
    "results j = rev (map (entry c) [0..<length (contacts_of c)])"
    "jobControlRefs w (uuidv4 c) = None"
  using assms by (auto simp: final_def split: option.splits)

lemma index_entries: "map index (map (entry c) [0..<n]) = [1..<n + 1]"
proof -
  have "map index (map (entry c) [0..<n]) = map Suc [0..<n]"
    by (simp add: entry_def)
  also have "\<dots> = [Suc 0..<Suc n]" by (rule map_Suc_upt)
  finally show ?thesis by simp
qed

lemma final_indices:
  assumes "final c w"
  shows "map_option (map index \<circ> results) (job_of w (uuidv4 c))
           = Some (rev [1..<length (contacts_of c) + 1])"
    and "map_option (map r_status \<circ> results) (job_of w (uuidv4 c))
           = Some (rev (map (\<lambda>i. fst (submission_result (fetch c i)))
                          [0..<length (contacts_of c)]))"
    and "map_option (length \<circ> results) (job_of w (uuidv4 c)) = Some (length (contacts_of c))"
    and "map_option status (job_of w (uuidv4 c)) = Some Completed"
    and "map_option progress (job_of w (uuidv4 c)) = Some 100"
    and "jobControlRefs w (uuidv4 c) = None"
proof -
  from assms obtain j where j: "job_of w (uuidv4 c) = Some j" and st: "status j = Completed"
    and pr: "progress j = 100"
    and res: "results j = rev (map (entry c) [0..<length (contacts_of c)])"
    and refs: "jobControlRefs w (uuidv4 c) = None"
    by (rule final_results)
  have "map index (results j) = rev (map index (map (entry c) [0..<length (contacts_of c)]))"
    unfolding res by (simp only: rev_map)
  then show "map_option (map index \<circ> results) (job_of w (uuidv4 c))
           = Some (rev [1..<length (contacts_of c) + 1])"
    using j by (simp only: index_entries map_option_case option.case comp_def)
  have "r_status \<circ> entry c = (\<lambda>i. fst (submission_result (fetch c i)))"
    by (simp add: entry_def fun_eq_iff)
  then have "map r_status (results j)
      = rev (map (\<lambda>i. fst (submission_result (fetch c i))) [0..<length (contacts_of c)])"
    unfolding res by (simp only: rev_map map_map)
  then show "map_option (map r_status \<circ> results) (job_of w (uuidv4 c))
           = Some (rev (map (\<lambda>i. fst (submission_result (fetch c i)))
                          [0..<length (contacts_of c)]))"
    using j by simp
  show "map_option (length \<circ> results) (job_of w (uuidv4 c)) = Some (length (contacts_of c))"
    using j res by simp
  show "map_option status (job_of w (uuidv4 c)) = Some Completed" using j st by simp
  show "map_option progress (job_of w (uuidv4 c)) = Some 100" using j pr by simp
  show "jobControlRefs w (uuidv4 c) = None" by (rule refs)
qed

lemma succeeds_status: "succeeds out \<Longrightarrow> fst (submission_result out) = Success"
  by (cases out) (auto simp: succeeds_def submission_result_def)

lemma fails_status: "\<not> succeeds out \<Longrightarrow> fst (submission_result out) = Failed"
  by (cases out) (auto simp: succeeds_def submission_result_def)

text \<open>
  Claim C1. A job started with \<open>delay = 0\<close> over a batch of \<open>N\<close> parsed contacts, every
  submission answered 201 or 204, with nothing but loop steps and timer ticks in the
  schedule, ends with the call returned, \<open>status = completed\<close>, \<open>progress = 100\<close>, \<open>N\<close>
  results whose indices are \<open>N, ..., 1\<close> in this order, all successes, and the control flags
  of the job deleted. \<open>N + 1\<close> loop steps suffice: one for the yield after the removal of a
  previous job, one per answer.
\<close>

theorem all_succeed_completes:
  assumes acct: "find (\<lambda>acc. acc_id acc = arg_accountId c) (accounts c) = Some account"
    and n: "contacts_of c \<noteq> []" and d: "arg_delay c = 0"
    and ok: "\<forall>i < length (contacts_of c). succeeds (fetch c i)"
    and dist: "distinct (map fst (jobs w))"
    and acts: "set acts \<subseteq> {LoopStep, Tick}"
    and enough: "length (contacts_of c) + 1 \<le> count_list acts LoopStep"
  shows "fst (run c acts (startJob c w)) = Finished
       \<and> map_option status (job_of (snd (run c acts (startJob c w))) (uuidv4 c)) = Some Completed
       \<and> map_option progress (job_of (snd (run c acts (startJob c w))) (uuidv4 c)) = Some 100
       \<and> map_option (length \<circ> results) (job_of (snd (run c acts (startJob c w))) (uuidv4 c))
           = Some (length (contacts_of c))
       \<and> map_option (map index \<circ> results) (job_of (snd (run c acts (startJob c w))) (uuidv4 c))
           = Some (rev [1..<length (contacts_of c) + 1])
       \<and> map_option (map r_status \<circ> results) (job_of (snd (run c acts (startJob c w))) (uuidv4 c))
           = Some (replicate (length (contacts_of c)) Success)
       \<and> jobControlRefs (snd (run c acts (startJob c w))) (uuidv4 c) = None"
proof -
  let ?s = "run c acts (startJob c w)"
  from startJob_good [OF acct n dist] d enough
  have g: "good c (startJob c w)"
    and r: "remaining c (fst (startJob c w)) \<le> count_list acts LoopStep"
    by (auto simp: steps_per_contact_def)
  from run_good [OF n acts g r] have fin: "fst ?s = Finished" and f: "final c (snd ?s)"
    by auto
  have st: "rev (map (\<lambda>i. fst (submission_result (fetch c i))) [0..<length (contacts_of c)])
          = replicate (length (contacts_of c)) Success"
    using ok by (intro replicate_eqI) (auto simp: succeeds_status)
  show ?thesis
    using fin final_indices [OF f] unfolding st by simp
qed

theorem all_succeed_completes_witness:
  "fst (run ((demo_call 0 (\<lambda>i. created))\<lparr>closure_jobs := [(''j1'', demo_job ''j1'' Completed)]\<rparr>)
         [LoopStep, Tick, LoopStep, LoopStep]
         (startJob
            ((demo_call 0 (\<lambda>i. created))\<lparr>closure_jobs := [(''j1'', demo_job ''j1'' Completed)]\<rparr>)
            (demo_world [(''j1'', demo_job ''j1'' Completed)] [])))
     = Finished
   \<and> map_option (\<lambda>j. (status j, progress j, map index (results j)))
        (job_of (snd (run
           ((demo_call 0 (\<lambda>i. created))\<lparr>closure_jobs := [(''j1'', demo_job ''j1'' Completed)]\<rparr>)
           [LoopStep, Tick, LoopStep, LoopStep]
           (startJob
              ((demo_call 0 (\<lambda>i. created))\<lparr>closure_jobs := [(''j1'', demo_job ''j1'' Completed)]\<rparr>)
              (demo_world [(''j1'', demo_job ''j1'' Completed)] [])))) ''j2'')
     = Some (Completed, 100, [2, 1])"
proof -
  let ?c = "(demo_call 0 (\<lambda>i. created))\<lparr>closure_jobs := [(''j1'', demo_job ''j1'' Completed)]\<rparr>"
  let ?w = "demo_world [(''j1'', demo_job ''j1'' Completed)] []"
  have 1: "find (\<lambda>acc. acc_id acc = arg_accountId ?c) (accounts ?c)
             = Some \<lparr>acc_id = ''acc-j1'', acc_name = ''Main'', apiKey = ''xkeysib''\<rparr>"
    by (simp add: demo_call_sel)
  have 2: "contacts_of ?c \<noteq> []" by (simp add: demo_contacts)
  have 3: "arg_delay ?c = 0" by (simp add: demo_call_sel)
  have 4: "\<forall>i < length (contacts_of ?c). succeeds (fetch ?c i)"
    by (simp add: demo_call_sel created_def succeeds_def)
  have 5: "distinct (map fst (jobs ?w))" by (simp add: demo_world_def)
  have 6: "set [LoopStep, Tick, LoopStep, LoopStep] \<subseteq> {LoopStep, Tick}" by simp
  have 7: "length (contacts_of ?c) + 1 \<le> count_list [LoopStep, Tick, LoopStep, LoopStep] LoopStep"
    by (simp add: demo_contacts)
  have 8: "rev [1..<length (contacts_of ?c) + 1] = [2, 1]"
    by (simp add: demo_contacts upt_rec)
  from all_succeed_completes [OF 1 2 3 4 5 6 7] show ?thesis
    unfolding 8 by (auto simp: demo_call_sel)
qed

subsection \<open>Failed submissions\<close>

lemma failed_result:
  "\<not> succeeds out \<Longrightarrow> submission_result out = (Failed, failure_data out)"
  by (cases out)
     (auto simp: succeeds_def submission_result_def failure_data_def errorDataString_def
        response_data_def split: option.splits json.splits)

text \<open>
  Claim C6, as amended. While the job is published, an answer to the submission of contact
  \<open>i\<close> other than 201 or 204, a network failure included, is recorded as one failed entry
  for that contact (index \<open>i + 1\<close>, the contact's email) and the call goes on with the loop
  condition of contact \<open>i + 1\<close>, as after a success; the recording leaves \<open>status\<close> and every
  other job as they were. The \<open>data\<close> of the entry is \<open>failure_data\<close>: the payload itself
  when the parsed body is a JSON string, else \<open>JSON.stringify(payload, null, 2)\<close>, where the
  payload is the parsed body, the object \<open>{rawResponse, status}\<close> when the body does not
  parse, \<open>{status}\<close> when the body is empty, and \<open>{}\<close> after a network failure. Whatever the
  answers are, a run of loop steps and ticks submits every contact once and completes.
\<close>

theorem failed_submission_recorded:
  assumes j: "job_of w (uuidv4 c) = Some j" and f: "\<not> succeeds (fetch c i)"
    and i: "i < length (contacts_of c)"
    and acct: "find (\<lambda>acc. acc_id acc = arg_accountId c) (accounts c) = Some account"
    and n: "contacts_of c \<noteq> []"
    and dist: "distinct (map fst (jobs w0))"
    and acts: "set acts \<subseteq> {LoopStep, Tick}"
    and enough: "length (contacts_of c) * steps_per_contact c + 1 \<le> count_list acts LoopStep"
  shows "loop_step c (Fetching i) w
           = loop_top c (i + 1)
               (w\<lparr>jobs := AList.update (uuidv4 c)
                   (j\<lparr>results := \<lparr>index = i + 1, r_email = email (contacts_of c ! i),
                                    r_status = Failed, r_data = failure_data (fetch c i)\<rparr>
                                  # results j,
                      progress := (of_nat (i + 1) / of_nat (totalContacts j)) * 100\<rparr>)
                   (jobs w)\<rparr>)
       \<and> fst (run c acts (startJob c w0)) = Finished
       \<and> map_option status (job_of (snd (run c acts (startJob c w0))) (uuidv4 c)) = Some Completed
       \<and> map_option (map index \<circ> results) (job_of (snd (run c acts (startJob c w0))) (uuidv4 c))
           = Some (rev [1..<length (contacts_of c) + 1])
       \<and> map_option (map r_status \<circ> results) (job_of (snd (run c acts (startJob c w0))) (uuidv4 c))
           = Some (rev (map (\<lambda>k. if succeeds (fetch c k) then Success else Failed)
                          [0..<length (contacts_of c)]))"
proof -
  have step: "loop_step c (Fetching i) w
           = loop_top c (i + 1)
               (w\<lparr>jobs := AList.update (uuidv4 c)
                   (j\<lparr>results := \<lparr>index = i + 1, r_email = email (contacts_of c ! i),
                                    r_status = Failed, r_data = failure_data (fetch c i)\<rparr>
                                  # results j,
                      progress := (of_nat (i + 1) / of_nat (totalContacts j)) * 100\<rparr>)
                   (jobs w)\<rparr>)"
    using j by (simp add: loop_step_def after_fetch_def record_result_def failed_result [OF f]
        job_of_def Let_def)
  let ?s = "run c acts (startJob c w0)"
  from startJob_good [OF acct n dist] enough
  have g: "good c (startJob c w0)"
    and r: "remaining c (fst (startJob c w0)) \<le> count_list acts LoopStep"
    by auto
  from run_good [OF n acts g r] have fin: "fst ?s = Finished" and fl: "final c (snd ?s)"
    by auto
  have st: "(\<lambda>k. fst (submission_result (fetch c k)))
              = (\<lambda>k. if succeeds (fetch c k) then Success else Failed)"
    by (auto simp: fun_eq_iff succeeds_status fails_status)
  show ?thesis
    using step fin final_indices [OF fl] unfolding st by simp
qed

lemma demo_start:
  "startJob (demo_call d f) (demo_world [] [])
     = (Fetching 0,
        \<lparr>jobs = [(''j2'', \<lparr>job_id = ''j2'', accountId = ''acc-j1'', listId = ''7'',
                           listName = ''Leads'', status = Running, progress = 0, results = [],
                           totalContacts = 2, elapsedTime = 0, delay = d\<rparr>)],
         jobControlRefs = [''j2'' \<mapsto> 0], heap = (\<lambda>_. no_controls), fresh = 1,
         toasts = [''Starting Job'']\<rparr>)"
  by (simp add: startJob_def install_def loop_top_def pause_check_def after_pause_def
      after_delay_def cancelled_in_refs_def toast_def demo_contacts demo_call_sel
      demo_world_def no_controls_def Let_def fun_eq_iff)

text \<open>
  Claim C6 as stated has the raw text as \<open>data\<close> when the body does not parse. The body
  \<open>Bad Gateway\<close> with status 502 is recorded as the serialised object that wraps it.
\<close>

theorem unparseable_body_counterexample:
  "fetch (demo_call 0 (\<lambda>i. bad_gateway)) 0 = Reply 502 ''Bad Gateway'' None
   \<and> map_option (map r_data \<circ> results)
        (job_of (snd (run (demo_call 0 (\<lambda>i. bad_gateway)) [LoopStep]
                   (startJob (demo_call 0 (\<lambda>i. bad_gateway)) (demo_world [] [])))) ''j2'')
       = Some [JSON_stringify (JObj [(''rawResponse'', JStr ''Bad Gateway''),
                                     (''status'', JNum 502)])]
   \<and> JSON_stringify (JObj [(''rawResponse'', JStr ''Bad Gateway''), (''status'', JNum 502)])
       \<noteq> ''Bad Gateway''"
  by (simp add: demo_start run_def apply_action_def loop_step_def after_fetch_def
      record_result_def submission_result_def errorDataString_def response_data_def
      loop_top_def pause_check_def after_pause_def after_delay_def cancelled_in_refs_def
      demo_contacts demo_call_sel bad_gateway_def no_controls_def job_of_def Let_def
      JSON_stringify_def)


theorem failed_submission_recorded_witness:
  "map_option (map r_status \<circ> results)
     (job_of (snd (run (demo_call 0 (\<lambda>i. if i = 0 then bad_gateway else created))
                     [LoopStep, LoopStep, LoopStep]
                     (startJob (demo_call 0 (\<lambda>i. if i = 0 then bad_gateway else created))
                        (demo_world [] [])))) ''j2'')
     = Some [Success, Failed]
   \<and> fst (loop_step (demo_call 0 (\<lambda>i. if i = 0 then bad_gateway else created)) (Fetching 0)
            (snd (startJob (demo_call 0 (\<lambda>i. if i = 0 then bad_gateway else created))
                    (demo_world [] []))))
     = Fetching 1"
proof -
  let ?c = "demo_call 0 (\<lambda>i. if i = 0 then bad_gateway else created)"
  let ?w = "snd (startJob ?c (demo_world [] []))"
  let ?j = "\<lparr>job_id = ''j2'', accountId = ''acc-j1'', listId = ''7'', listName = ''Leads'',
             status = Running, progress = 0, results = [], totalContacts = 2,
             elapsedTime = 0, delay = 0\<rparr>"
  have 1: "job_of ?w (uuidv4 ?c) = Some ?j"
    by (simp add: demo_start demo_call_sel job_of_def)
  have 2: "\<not> succeeds (fetch ?c 0)"
    by (simp add: demo_call_sel bad_gateway_def succeeds_def)
  have 3: "find (\<lambda>acc. acc_id acc = arg_accountId ?c) (accounts ?c)
             = Some \<lparr>acc_id = ''acc-j1'', acc_name = ''Main'', apiKey = ''xkeysib''\<rparr>"
    by (simp add: demo_call_sel)
  have 4: "contacts_of ?c \<noteq> []" by (simp add: demo_contacts)
  have 5: "distinct (map fst (jobs (demo_world [] [])))" by (simp add: demo_world_def)
  have 6: "set [LoopStep, LoopStep, LoopStep] \<subseteq> {LoopStep, Tick}" by simp
  have 7: "length (contacts_of ?c) * steps_per_contact ?c + 1
             \<le> count_list [LoopStep, LoopStep, LoopStep] LoopStep"
    by (simp add: demo_contacts steps_per_contact_def demo_call_sel)
  have 8: "rev (map (\<lambda>k. if succeeds (fetch ?c k) then Success else Failed)
                  [0..<length (contacts_of ?c)]) = [Success, Failed]"
    by (simp add: demo_contacts demo_call_sel bad_gateway_def created_def succeeds_def upt_rec)
  have 9: "0 < length (contacts_of ?c)" by (simp add: demo_contacts)
  from failed_submission_recorded [OF 1 2 9 3 4 5 6 7] show ?thesis
    unfolding 8
    by (simp add: demo_call_sel demo_start demo_contacts loop_top_def pause_check_def
        after_pause_def after_delay_def cancelled_in_refs_def no_controls_def)
qed

subsection \<open>Cancellation\<close>

lemma cancel_exit_world:
  assumes j: "job_of w (uuidv4 c) = Some j"
  shows "job_of (cancel_exit c w) = (job_of w)(uuidv4 c \<mapsto> j\<lparr>status := Cancelled\<rparr>)"
    and "jobControlRefs (cancel_exit c w) = (jobControlRefs w)(uuidv4 c := None)"
    and "heap (cancel_exit c w) = heap w"
proof -
  show "job_of (cancel_exit c w) = (job_of w)(uuidv4 c \<mapsto> j\<lparr>status := Cancelled\<rparr>)"
  proof (cases "status j = Cancelled")
    case True
    then have "j\<lparr>status := Cancelled\<rparr> = j" by simp
    with j True show ?thesis
      by (auto simp: cancel_exit_def drop_controls_def updateJobStatus_def toast_def
          job_of_def fun_eq_iff)
  next
    case False
    with j show ?thesis
      by (auto simp: cancel_exit_def drop_controls_def updateJobStatus_def toast_def
          job_of_def fun_eq_iff update_conv')
  qed
qed (simp_all add: cancel_exit_def drop_controls_def updateJobStatus_def toast_def
      split: option.splits)

lemma completion_after_cancel: "completion c (cancel_exit c w) = cancel_exit c w"
  by (simp add: completion_def cancel_exit_def drop_controls_def)

text \<open>
  Claim C2. \<open>cancelJob\<close> on a job whose control flags exist sets \<open>isCancelled\<close> on the
  flag object and changes neither the published jobs nor the flag table. When the loop then
  reaches one of its four checkpoints with the flag set (the top of an iteration, the pause
  loop, the re-check after the pause, the re-check after the delay), the call returns
  there, having published \<open>status = cancelled\<close> on the job with every other field,
  \<open>progress\<close> included, as last published, and having deleted the control flags.
\<close>

theorem cancel_observed:
  assumes r0: "jobControlRefs w0 (uuidv4 c) = Some a0"
    and refs: "jobControlRefs w (uuidv4 c) = Some a"
    and j: "job_of w (uuidv4 c) = Some j"
    and cancelled: "isCancelled (heap w a)"
    and i: "i < length (contacts_of c)"
  shows "jobs (cancelJob (uuidv4 c) w0) = jobs w0
       \<and> jobControlRefs (cancelJob (uuidv4 c) w0) = jobControlRefs w0
       \<and> heap (cancelJob (uuidv4 c) w0) = (heap w0)(a0 := (heap w0 a0)\<lparr>isCancelled := True\<rparr>)
       \<and> loop_top c i w = (Finished, cancel_exit c w)
       \<and> pause_check c i a w = (Finished, cancel_exit c w)
       \<and> after_pause c i w = (Finished, cancel_exit c w)
       \<and> after_delay c i w = (Finished, cancel_exit c w)
       \<and> job_of (cancel_exit c w) = (job_of w)(uuidv4 c \<mapsto> j\<lparr>status := Cancelled\<rparr>)
       \<and> jobControlRefs (cancel_exit c w) = (jobControlRefs w)(uuidv4 c := None)"
proof -
  have c0: "jobs (cancelJob (uuidv4 c) w0) = jobs w0
       \<and> jobControlRefs (cancelJob (uuidv4 c) w0) = jobControlRefs w0
       \<and> heap (cancelJob (uuidv4 c) w0) = (heap w0)(a0 := (heap w0 a0)\<lparr>isCancelled := True\<rparr>)"
    using r0 by (simp add: cancelJob_def toast_def)
  have cr: "cancelled_in_refs (uuidv4 c) w"
    using refs cancelled by (simp add: cancelled_in_refs_def)
  have ad: "after_delay c i w = (Finished, cancel_exit c w)"
    using cr by (simp add: after_delay_def completion_after_cancel)
  have ap: "after_pause c i w = (Finished, cancel_exit c w)"
    using cr by (simp add: after_pause_def completion_after_cancel)
  have pc: "pause_check c i a w = (Finished, cancel_exit c w)"
    using cancelled ap by (simp add: pause_check_def)
  have lt: "loop_top c i w = (Finished, cancel_exit c w)"
    using refs cancelled i by (simp add: loop_top_def completion_after_cancel)
  show ?thesis
    using c0 ad ap pc lt cancel_exit_world(1,2) [OF j] by simp
qed

lemma demo_delay_cancel:
  "run (demo_call 1 (\<lambda>i. created)) [LoopStep, CancelCmd ''j2'']
     (startJob (demo_call 1 (\<lambda>i. created)) (demo_world [] []))
   = (DelaySleep 1,
      \<lparr>jobs = [(''j2'', \<lparr>job_id = ''j2'', accountId = ''acc-j1'', listId = ''7'',
                         listName = ''Leads'', status = Running, progress = 50,
                         results = [\<lparr>index = 1, r_email = ''a@x.com'', r_status = Success,
                                     r_data = ''{}''\<rparr>],
                         totalContacts = 2, elapsedTime = 0, delay = 1\<rparr>)],
       jobControlRefs = [''j2'' \<mapsto> 0],
       heap = (\<lambda>_. no_controls)(0 := \<lparr>isPaused = False, isCancelled = True\<rparr>),
       fresh = 1,
       toasts = [''Starting Job'', ''Job Cancellation Requested'']\<rparr>)"
  by (simp add: demo_start run_def apply_action_def loop_step_def after_fetch_def
      record_result_def submission_result_def response_data_def created_def
      loop_top_def pause_check_def after_pause_def after_delay_def cancelled_in_refs_def
      cancelJob_def toast_def demo_contacts demo_call_sel no_controls_def Let_def
      JSON_stringify_def fun_eq_iff)

theorem cancel_observed_witness:
  "map_option (\<lambda>j. (status j, progress j))
     (job_of (snd (run (demo_call 1 (\<lambda>i. created)) [LoopStep, CancelCmd ''j2'', LoopStep]
                     (startJob (demo_call 1 (\<lambda>i. created)) (demo_world [] [])))) ''j2'')
     = Some (Cancelled, 50)
   \<and> jobControlRefs
        (snd (run (demo_call 1 (\<lambda>i. created)) [LoopStep, CancelCmd ''j2'', LoopStep]
                (startJob (demo_call 1 (\<lambda>i. created)) (demo_world [] [])))) ''j2'' = None
   \<and> fst (run (demo_call 1 (\<lambda>i. created)) [LoopStep, CancelCmd ''j2'', LoopStep]
            (startJob (demo_call 1 (\<lambda>i. created)) (demo_world [] []))) = Finished"
proof -
  let ?c = "demo_call 1 (\<lambda>i. created)"
  let ?init = "startJob ?c (demo_world [] [])"
  let ?s = "run ?c [LoopStep, CancelCmd ''j2''] ?init"
  let ?j = "\<lparr>job_id = ''j2'', accountId = ''acc-j1'', listId = ''7'',
                         listName = ''Leads'', status = Running, progress = 50,
                         results = [\<lparr>index = 1, r_email = ''a@x.com'', r_status = Success,
                                     r_data = ''{}''\<rparr>],
                         totalContacts = 2, elapsedTime = 0, delay = 1\<rparr>"
  have 0: "jobControlRefs (snd ?init) (uuidv4 ?c) = Some 0"
    by (simp add: demo_start demo_call_sel)
  have 1: "jobControlRefs (snd ?s) (uuidv4 ?c) = Some 0"
    by (simp add: demo_delay_cancel demo_call_sel)
  have 2: "job_of (snd ?s) (uuidv4 ?c) = Some ?j"
    by (simp add: demo_delay_cancel demo_call_sel job_of_def)
  have 3: "isCancelled (heap (snd ?s) 0)" by (simp add: demo_delay_cancel)
  have 4: "1 < length (contacts_of ?c)" by (simp add: demo_contacts)
  have r: "run ?c [LoopStep, CancelCmd ''j2'', LoopStep] ?init = after_delay ?c 1 (snd ?s)"
    using demo_delay_cancel
    by (simp add: run_def apply_action_def loop_step_def)
  from cancel_observed [OF 0 1 2 3 4] show ?thesis
    unfolding r by (simp add: demo_call_sel)
qed

subsection \<open>Terminal statuses\<close>

lemma stat_toast [simp]: "stat (toast t w) = stat w"
  by (simp add: stat_def job_of_def toast_def fun_eq_iff)

lemma stat_drop_controls [simp]: "stat (drop_controls k w) = stat w"
  by (simp add: stat_def job_of_def drop_controls_def fun_eq_iff)

lemma stat_heap_update [simp]: "stat (w\<lparr>heap := h\<rparr>) = stat w"
  by (simp add: stat_def job_of_def fun_eq_iff)

lemma stat_updateJobStatus:
  "stat (updateJobStatus k st w) k'
     = (if k' = k \<and> stat w k \<noteq> None then Some st else stat w k')"
  by (auto simp: stat_def job_of_def updateJobStatus_def update_conv' split: option.splits)

lemma stat_removeJob: "stat (removeJob k w) = (stat w)(k := None)"
  by (simp add: stat_def job_of_def removeJob_def delete_conv' fun_eq_iff)

lemma stat_record_result [simp]: "stat (record_result c i r w) = stat w"
  by (auto simp: stat_def job_of_def record_result_def Let_def update_conv' fun_eq_iff
      split: option.splits)

lemma stat_tick: "distinct (map fst (jobs w)) \<Longrightarrow> stat (tick w) = stat w"
  by (auto simp: stat_def job_of_tick bump_def fun_eq_iff map_option_case split: option.splits)

lemma stat_cancelJob [simp]: "stat (cancelJob k w) = stat w"
  by (simp add: cancelJob_def split: option.splits)

lemma keys_update_present:
  "map_of al k = Some x \<Longrightarrow> map fst (AList.update k v al) = map fst al"
  by (induction al) (auto split: if_splits)

lemma keys_updateJobStatus [simp]:
  "map fst (jobs (updateJobStatus k st w)) = map fst (jobs w)"
  by (simp add: updateJobStatus_def keys_update_present split: option.splits)

lemma jobs_toast [simp]: "jobs (toast t w) = jobs w" "jobControlRefs (toast t w) = jobControlRefs w"
  "heap (toast t w) = heap w"
  by (simp_all add: toast_def)

lemma refs_updateJobStatus [simp]:
  "jobControlRefs (updateJobStatus k st w) = jobControlRefs w"
  "heap (updateJobStatus k st w) = heap w"
  by (simp_all add: updateJobStatus_def split: option.splits)

lemma jobs_drop_controls [simp]: "jobs (drop_controls k w) = jobs w"
  "jobControlRefs (drop_controls k w) = (jobControlRefs w)(k := None)"
  "heap (drop_controls k w) = heap w"
  by (simp_all add: drop_controls_def)

lemma tinv_cancel_exit: "tinv c p w \<Longrightarrow> tinv c Finished (cancel_exit c w)"
  by (auto simp: tinv_def cancel_exit_def stat_updateJobStatus split: if_splits)

lemma tinv_completion: "tinv c p w \<Longrightarrow> tinv c Finished (completion c w)"
  by (auto simp: tinv_def completion_def stat_updateJobStatus split: if_splits option.splits)

lemma tinv_keep:
  "tinv c p w \<Longrightarrow> (case stat w (uuidv4 c) of Some s \<Rightarrow> \<not> terminal s | None \<Rightarrow> True)
   \<Longrightarrow> tinv c p' w"
  by (auto simp: tinv_def split: option.splits)

lemma tinv_after_delay:
  assumes "tinv c p w" and "case stat w (uuidv4 c) of Some s \<Rightarrow> \<not> terminal s | None \<Rightarrow> True"
  shows "tinv c (fst (after_delay c i w)) (snd (after_delay c i w))"
  using assms tinv_completion [OF tinv_cancel_exit [OF assms(1)]] tinv_keep [OF assms]
  by (simp add: after_delay_def)

lemma tinv_after_pause:
  assumes "tinv c p w" and "case stat w (uuidv4 c) of Some s \<Rightarrow> \<not> terminal s | None \<Rightarrow> True"
  shows "tinv c (fst (after_pause c i w)) (snd (after_pause c i w))"
  using assms tinv_completion [OF tinv_cancel_exit [OF assms(1)]] tinv_keep [OF assms]
    tinv_after_delay [OF assms]
  by (simp add: after_pause_def)

lemma tinv_pause_check:
  assumes "tinv c p w" and "case stat w (uuidv4 c) of Some s \<Rightarrow> \<not> terminal s | None \<Rightarrow> True"
  shows "tinv c (fst (pause_check c i a w)) (snd (pause_check c i a w))"
  using assms tinv_cancel_exit [OF assms(1)] tinv_keep [OF assms]
    tinv_after_pause [OF assms]
  by (simp add: pause_check_def)

lemma tinv_loop_top:
  assumes "tinv c p w" and "case stat w (uuidv4 c) of Some s \<Rightarrow> \<not> terminal s | None \<Rightarrow> True"
  shows "tinv c (fst (loop_top c i w)) (snd (loop_top c i w))"
  using assms tinv_completion [OF tinv_cancel_exit [OF assms(1)]] tinv_completion [OF assms(1)]
    tinv_pause_check [OF assms]
  by (simp add: loop_top_def split: option.splits)



lemma tinv_live: "tinv c p w \<Longrightarrow> p \<noteq> Finished \<Longrightarrow> live c w"
  by (auto simp: tinv_def live_def split: option.splits)

lemma tinv_record_result: "tinv c p w \<Longrightarrow> tinv c p (record_result c i r w)"
  by (auto simp: tinv_def)
     (auto simp: record_result_def Let_def distinct_update split: option.splits)

lemma live_record_result: "live c w \<Longrightarrow> live c (record_result c i r w)"
  by (simp add: live_def)

lemma tinv_loop_top': "tinv c p w \<Longrightarrow> live c w \<Longrightarrow> tinv c (fst (loop_top c i w)) (snd (loop_top c i w))"
  using tinv_loop_top [of c p w i] by (simp add: live_def)

lemma tinv_install:
  assumes "tinv c p w"
  shows "tinv c (fst (install c w)) (snd (install c w))"
proof -
  let ?a = "fresh w"
  let ?new = "\<lparr>job_id = uuidv4 c, accountId = arg_accountId c, listId = arg_listId c,
                listName = arg_listName c, status = Running, progress = 0, results = [],
                totalContacts = length (contacts_of c), elapsedTime = 0,
                delay = arg_delay c\<rparr>"
  let ?w = "toast ''Starting Job''
             (w\<lparr>jobControlRefs := (jobControlRefs w)(uuidv4 c \<mapsto> ?a),
                heap := (heap w)(?a := \<lparr>isPaused = False, isCancelled = False\<rparr>),
                fresh := Suc ?a, jobs := AList.update (uuidv4 c) ?new (jobs w)\<rparr>)"
  have i: "install c w = loop_top c 0 ?w"
    by (simp add: install_def Let_def)
  have st: "stat ?w = (stat w)(uuidv4 c \<mapsto> Running)"
    by (simp add: stat_def job_of_def update_conv' fun_eq_iff toast_def)
  have "tinv c AwaitRemoval ?w"
    using assms unfolding tinv_def st
    by (auto simp: distinct_update terminal_def toast_def)
  moreover have "live c ?w" unfolding live_def st by (simp add: terminal_def)
  ultimately show ?thesis unfolding i by (rule tinv_loop_top')
qed

lemma tinv_loop_step:
  assumes "tinv c p w"
  shows "tinv c (fst (loop_step c p w)) (snd (loop_step c p w))"
proof (cases p)
  case AwaitRemoval
  with tinv_install [OF assms] show ?thesis by (simp add: loop_step_def)
next
  case (PauseWait i a)
  with assms have "live c w" by (auto intro: tinv_live)
  with tinv_pause_check [OF assms, of i a] PauseWait show ?thesis
    by (simp add: loop_step_def live_def)
next
  case (DelaySleep i)
  with assms have "live c w" by (auto intro: tinv_live)
  with tinv_after_delay [OF assms, of i] DelaySleep show ?thesis
    by (simp add: loop_step_def live_def)
next
  case (Fetching i)
  with assms have "live c w" by (auto intro: tinv_live)
  from tinv_loop_top' [OF tinv_record_result [OF assms] live_record_result [OF this]] Fetching
  show ?thesis by (simp add: loop_step_def after_fetch_def)
next
  case Finished
  with assms show ?thesis by (simp add: loop_step_def)
qed

lemma tinv_pauseJob: "tinv c p w \<Longrightarrow> tinv c p (pauseJob k w)"
  by (auto simp: tinv_def pauseJob_def stat_updateJobStatus terminal_def
      split: option.splits if_splits)

lemma tinv_resumeJob: "tinv c p w \<Longrightarrow> tinv c p (resumeJob k w)"
  by (auto simp: tinv_def resumeJob_def stat_updateJobStatus terminal_def
      split: option.splits if_splits)

lemma tinv_cancelJob: "tinv c p w \<Longrightarrow> tinv c p (cancelJob k w)"
  by (auto simp: tinv_def) (auto simp: cancelJob_def split: option.splits)

lemma tinv_tick: "tinv c p w \<Longrightarrow> tinv c p (tick w)"
  by (auto simp: tinv_def stat_tick distinct_tick tick_heap)

lemma stat_discard: "stat (discard_existing k w) = (stat w)(k := None)"
  by (simp add: discard_existing_def stat_removeJob split: option.splits)

lemma refs_discard: "jobControlRefs (discard_existing k w) = (jobControlRefs w)(k := None)"
  by (simp add: discard_existing_def removeJob_def drop_controls_def split: option.splits)

lemma distinct_discard:
  "distinct (map fst (jobs w)) \<Longrightarrow> distinct (map fst (jobs (discard_existing k w)))"
  by (simp add: discard_existing_def removeJob_def drop_controls_def distinct_delete
      split: option.splits)

lemma tinv_discard: "tinv c p w \<Longrightarrow> tinv c p (discard_existing k w)"
  by (auto simp: tinv_def stat_discard refs_discard distinct_discard split: if_splits)

lemma tinv_action:
  assumes "tinv c (fst s) (snd s)"
  shows "tinv c (fst (apply_action c act s)) (snd (apply_action c act s))"
  using assms tinv_loop_step tinv_pauseJob tinv_resumeJob tinv_cancelJob tinv_tick tinv_discard
  by (cases act) (simp_all add: apply_action_def)

lemma tinv_run:
  "tinv c (fst s) (snd s) \<Longrightarrow> tinv c (fst (run c acts s)) (snd (run c acts s))"
proof (induction acts arbitrary: s)
  case Nil
  then show ?case by (simp add: run_def)
next
  case (Cons act acts)
  from Cons.IH [OF tinv_action [OF Cons.prems]] show ?case by (simp add: run_def)
qed

lemma stat_cancel_exit_other: "k \<noteq> uuidv4 c \<Longrightarrow> stat (cancel_exit c w) k = stat w k"
  by (simp add: cancel_exit_def stat_updateJobStatus)

lemma stat_completion_other: "k \<noteq> uuidv4 c \<Longrightarrow> stat (completion c w) k = stat w k"
  by (simp add: completion_def stat_updateJobStatus split: option.splits)

lemma stat_after_delay_other:
  "k \<noteq> uuidv4 c \<Longrightarrow> stat (snd (after_delay c i w)) k = stat w k"
  by (simp add: after_delay_def stat_cancel_exit_other stat_completion_other)

lemma stat_after_pause_other:
  "k \<noteq> uuidv4 c \<Longrightarrow> stat (snd (after_pause c i w)) k = stat w k"
  by (simp add: after_pause_def stat_after_delay_other stat_cancel_exit_other
      stat_completion_other)

lemma stat_pause_check_other:
  "k \<noteq> uuidv4 c \<Longrightarrow> stat (snd (pause_check c i a w)) k = stat w k"
  by (simp add: pause_check_def stat_after_pause_other stat_cancel_exit_other)

lemma stat_loop_top_other:
  "k \<noteq> uuidv4 c \<Longrightarrow> stat (snd (loop_top c i w)) k = stat w k"
  by (simp add: loop_top_def stat_pause_check_other stat_cancel_exit_other
      stat_completion_other split: option.splits)

lemma stat_install_other:
  "k \<noteq> uuidv4 c \<Longrightarrow> stat (snd (install c w)) k = stat w k"
  by (simp add: install_def Let_def stat_loop_top_other)
     (simp add: stat_def job_of_def update_conv')

lemma stat_loop_step_other:
  "k \<noteq> uuidv4 c \<Longrightarrow> stat (snd (loop_step c p w)) k = stat w k"
  by (cases p)
     (simp_all add: loop_step_def after_fetch_def stat_install_other stat_pause_check_other
        stat_after_delay_other stat_loop_top_other)

lemma stat_pauseJob:
  "stat (pauseJob k' w) k = (if k = k' \<and> jobControlRefs w k' \<noteq> None \<and> stat w k \<noteq> None
                             then Some Paused else stat w k)"
  by (auto simp: pauseJob_def stat_updateJobStatus split: option.splits)

lemma stat_resumeJob:
  "stat (resumeJob k' w) k = (if k = k' \<and> jobControlRefs w k' \<noteq> None \<and> stat w k \<noteq> None
                              then Some Running else stat w k)"
  by (auto simp: resumeJob_def stat_updateJobStatus split: option.splits)

lemma frozen_step:
  assumes inv: "tinv c p w" and k: "stat w k = Some s" and t: "terminal s"
  shows "stat (snd (apply_action c act (p, w))) k = (if act = Discard k then None else Some s)"
proof -
  from inv k t have refs: "jobControlRefs w k = None"
    and fin: "k = uuidv4 c \<Longrightarrow> p = Finished"
    by (auto simp: tinv_def)
  from inv have dist: "distinct (map fst (jobs w))" by (simp add: tinv_def)
  show ?thesis
  proof (cases act)
    case LoopStep
    show ?thesis
    proof (cases "k = uuidv4 c")
      case True
      with fin LoopStep k show ?thesis by (simp add: apply_action_def loop_step_def)
    next
      case False
      with LoopStep k show ?thesis by (simp add: apply_action_def stat_loop_step_other)
    qed
  next
    case (PauseCmd k')
    with k refs show ?thesis by (auto simp: apply_action_def stat_pauseJob)
  next
    case (ResumeCmd k')
    with k refs show ?thesis by (auto simp: apply_action_def stat_resumeJob)
  next
    case (CancelCmd k')
    with k show ?thesis by (simp add: apply_action_def)
  next
    case Tick
    with k dist show ?thesis by (simp add: apply_action_def stat_tick)
  next
    case (Discard k')
    with k show ?thesis by (auto simp: apply_action_def stat_discard)
  qed
qed

lemma finished_step: "fst (apply_action c act (Finished, w)) = Finished"
  by (cases act) (simp_all add: apply_action_def loop_step_def)

lemma gone_step:
  assumes k: "stat w k = None" and fin: "k = uuidv4 c \<longrightarrow> p = Finished"
    and dist: "distinct (map fst (jobs w))"
  shows "stat (snd (apply_action c act (p, w))) k = None"
proof (cases act)
  case LoopStep
  show ?thesis
  proof (cases "k = uuidv4 c")
    case True
    with fin LoopStep k show ?thesis by (simp add: apply_action_def loop_step_def)
  next
    case False
    with LoopStep k show ?thesis by (simp add: apply_action_def stat_loop_step_other)
  qed
next
  case (PauseCmd k')
  with k show ?thesis by (auto simp: apply_action_def stat_pauseJob)
next
  case (ResumeCmd k')
  with k show ?thesis by (auto simp: apply_action_def stat_resumeJob)
next
  case (CancelCmd k')
  with k show ?thesis by (simp add: apply_action_def)
next
  case Tick
  with k dist show ?thesis by (simp add: apply_action_def stat_tick)
next
  case (Discard k')
  with k show ?thesis by (auto simp: apply_action_def stat_discard)
qed


lemma frozen_run:
  assumes t: "terminal s"
  shows "tinv c (fst st) (snd st) \<Longrightarrow> k = uuidv4 c \<longrightarrow> fst st = Finished
    \<Longrightarrow> stat (snd st) k = Some s \<or> stat (snd st) k = None
    \<Longrightarrow> (stat (snd (run c acts st)) k = Some s \<or> stat (snd (run c acts st)) k = None)
        \<and> (stat (snd st) k = Some s \<longrightarrow> Discard k \<notin> set acts
             \<longrightarrow> stat (snd (run c acts st)) k = Some s)"
proof (induction acts arbitrary: st)
  case Nil
  then show ?case by (simp add: run_def)
next
  case (Cons act acts)
  obtain p w where st: "st = (p, w)" by (cases st)
  let ?st' = "apply_action c act st"
  have r: "run c (act # acts) st = run c acts ?st'" by (simp add: run_def)
  have inv': "tinv c (fst ?st') (snd ?st')" by (rule tinv_action [OF Cons.prems(1)])
  have fin': "k = uuidv4 c \<longrightarrow> fst ?st' = Finished"
    using Cons.prems(2) st finished_step [of c act w] by auto
  from Cons.prems(1) st have dist: "distinct (map fst (jobs w))" by (simp add: tinv_def)
  have step: "stat (snd ?st') k = (if stat w k = Some s \<and> act \<noteq> Discard k then Some s else None)"
  proof (cases "stat w k = Some s")
    case True
    from frozen_step [OF _ True t, of c p act] Cons.prems(1) st True show ?thesis by simp
  next
    case False
    with Cons.prems(3) st have n: "stat w k = None" by simp
    from gone_step [OF n _ dist, of c p act] Cons.prems(2) st False show ?thesis by simp
  qed
  then have "stat (snd ?st') k = Some s \<or> stat (snd ?st') k = None" by simp
  from Cons.IH [OF inv' fin' this] step st show ?case
    unfolding r by (auto split: if_splits)
qed

lemma refs_cancel_exit_other:
  "k \<noteq> uuidv4 c \<Longrightarrow> jobControlRefs (cancel_exit c w) k = jobControlRefs w k"
  by (simp add: cancel_exit_def)

lemma refs_completion_other:
  "k \<noteq> uuidv4 c \<Longrightarrow> jobControlRefs (completion c w) k = jobControlRefs w k"
  by (simp add: completion_def split: option.splits)

lemma refs_record_result [simp]:
  "jobControlRefs (record_result c i r w) = jobControlRefs w"
  by (simp add: record_result_def Let_def split: option.splits)

lemma refs_loop_top_other:
  "k \<noteq> uuidv4 c \<Longrightarrow> jobControlRefs (snd (loop_top c i w)) k = jobControlRefs w k"
  by (simp add: loop_top_def pause_check_def after_pause_def after_delay_def
      refs_cancel_exit_other refs_completion_other split: option.splits)

lemma refs_loop_step_other:
  "k \<noteq> uuidv4 c \<Longrightarrow> jobControlRefs (snd (loop_step c p w)) k = jobControlRefs w k"
  by (cases p)
     (simp_all add: loop_step_def after_fetch_def install_def Let_def refs_loop_top_other
        pause_check_def after_pause_def after_delay_def refs_cancel_exit_other
        refs_completion_other toast_def)

lemma refs_gone_step:
  assumes k: "jobControlRefs w k = None" and fin: "k = uuidv4 c \<longrightarrow> p = Finished"
  shows "jobControlRefs (snd (apply_action c act (p, w))) k = None"
proof (cases act)
  case LoopStep
  show ?thesis
  proof (cases "k = uuidv4 c")
    case True
    with fin LoopStep k show ?thesis by (simp add: apply_action_def loop_step_def)
  next
    case False
    with LoopStep k show ?thesis by (simp add: apply_action_def refs_loop_step_other)
  qed
next
  case (PauseCmd k')
  with k show ?thesis by (simp add: apply_action_def pauseJob_def split: option.splits)
next
  case (ResumeCmd k')
  with k show ?thesis by (simp add: apply_action_def resumeJob_def split: option.splits)
next
  case (CancelCmd k')
  with k show ?thesis
    by (simp add: apply_action_def cancelJob_def toast_def split: option.splits)
next
  case Tick
  with k show ?thesis by (simp add: apply_action_def tick_heap)
next
  case (Discard k')
  with k show ?thesis by (simp add: apply_action_def refs_discard)
qed

lemma refs_gone_run:
  "jobControlRefs (snd st) k = None \<Longrightarrow> k = uuidv4 c \<longrightarrow> fst st = Finished
   \<Longrightarrow> jobControlRefs (snd (run c acts st)) k = None"
proof (induction acts arbitrary: st)
  case Nil
  then show ?case by (simp add: run_def)
next
  case (Cons act acts)
  obtain p w where st: "st = (p, w)" by (cases st)
  have "jobControlRefs (snd (apply_action c act st)) k = None"
    using refs_gone_step [of w k c p act] Cons.prems st by simp
  moreover have "k = uuidv4 c \<longrightarrow> fst (apply_action c act st) = Finished"
    using Cons.prems(2) st finished_step [of c act w] by auto
  ultimately show ?case using Cons.IH by (simp add: run_def)
qed

lemma tinv_startJob:
  assumes w: "flags_gone_when_terminal w" and fresh: "job_of w (uuidv4 c) = None"
  shows "tinv c (fst (startJob c w)) (snd (startJob c w))"
proof -
  from w have dist: "distinct (map fst (jobs w))" by (simp add: flags_gone_when_terminal_def)
  have "jobControlRefs w k = None" if "stat w k = Some s" "terminal s" for k s
  proof -
    from that(1) obtain j where j: "map_of (jobs w) k = Some j" and s: "status j = s"
      by (auto simp: stat_def job_of_def)
    from j have "(k, j) \<in> set (jobs w)" by (rule map_of_SomeD)
    with w s that(2) show ?thesis by (auto simp: flags_gone_when_terminal_def)
  qed
  moreover from fresh have "stat w (uuidv4 c) = None" by (simp add: stat_def)
  ultimately have inv: "tinv c p w" for p
    using dist by (auto simp: tinv_def)
  have "tinv c Finished (toast t w)" for t using inv [of Finished] by (simp add: tinv_def)
  moreover have "tinv c AwaitRemoval (discard_existing k w)" for k
    by (rule tinv_discard [OF inv])
  moreover note tinv_install [OF inv [of AwaitRemoval]]
  ultimately show ?thesis
    by (simp add: startJob_def split: option.splits)
qed

text \<open>
  Claim C5. \<open>completed\<close> and \<open>cancelled\<close> are terminal. Take any run of a call (loop
  steps, ticks, pause, resume and cancel commands on any job id, removals by other starts)
  from a state in which terminal jobs have no flags and the new id is unused. Once a job is
  published with status \<open>completed\<close> or \<open>cancelled\<close>, its control flags are absent, and
  after any further actions they are still absent and the job has the same status, or has
  been removed by a later start for its account; without such a removal it has the same
  status.
\<close>

theorem terminal_is_final:
  assumes w0: "flags_gone_when_terminal w0" and fresh: "job_of w0 (uuidv4 c) = None"
    and j: "job_of (snd (run c acts1 (startJob c w0))) k = Some j"
    and t: "terminal (status j)"
  shows "jobControlRefs (snd (run c acts1 (startJob c w0))) k = None
       \<and> jobControlRefs (snd (run c acts2 (run c acts1 (startJob c w0)))) k = None
       \<and> (map_option status (job_of (snd (run c acts2 (run c acts1 (startJob c w0)))) k)
            = Some (status j)
          \<or> job_of (snd (run c acts2 (run c acts1 (startJob c w0)))) k = None)
       \<and> (Discard k \<notin> set acts2 \<longrightarrow>
            map_option status (job_of (snd (run c acts2 (run c acts1 (startJob c w0)))) k)
              = Some (status j))"
proof -
  let ?s1 = "run c acts1 (startJob c w0)"
  let ?s2 = "run c acts2 ?s1"
  have inv1: "tinv c (fst ?s1) (snd ?s1)"
    by (rule tinv_run [OF tinv_startJob [OF w0 fresh]])
  have inv2: "tinv c (fst ?s2) (snd ?s2)" by (rule tinv_run [OF inv1])
  from j have st1: "stat (snd ?s1) k = Some (status j)" by (simp add: stat_def)
  with inv1 t have r1: "jobControlRefs (snd ?s1) k = None"
    and fin: "k = uuidv4 c \<longrightarrow> fst ?s1 = Finished"
    by (auto simp: tinv_def)
  from frozen_run [OF t inv1 fin, where acts = acts2] st1
  have fr: "stat (snd ?s2) k = Some (status j) \<or> stat (snd ?s2) k = None"
    and keep: "Discard k \<notin> set acts2 \<longrightarrow> stat (snd ?s2) k = Some (status j)"
    by auto
  have r2: "jobControlRefs (snd ?s2) k = None"
    by (rule refs_gone_run [OF r1 fin])
  show ?thesis using r1 r2 fr keep by (auto simp: stat_def)
qed


lemma demo_completed:
  "run (demo_call 0 (\<lambda>i. created)) [LoopStep, LoopStep]
     (startJob (demo_call 0 (\<lambda>i. created)) (demo_world [] []))
   = (Finished,
      \<lparr>jobs = [(''j2'', \<lparr>job_id = ''j2'', accountId = ''acc-j1'', listId = ''7'',
                         listName = ''Leads'', status = Completed, progress = 100,
                         results = [\<lparr>index = 2, r_email = ''b@x.com'', r_status = Success,
                                     r_data = ''{}''\<rparr>,
                                    \<lparr>index = 1, r_email = ''a@x.com'', r_status = Success,
                                     r_data = ''{}''\<rparr>],
                         totalContacts = 2, elapsedTime = 0, delay = 0\<rparr>)],
       jobControlRefs = Map.empty, heap = (\<lambda>_. no_controls), fresh = 1,
       toasts = [''Starting Job'', ''Job Completed'']\<rparr>)"
  by (simp add: demo_start run_def apply_action_def loop_step_def after_fetch_def
      record_result_def submission_result_def response_data_def created_def
      loop_top_def pause_check_def after_pause_def after_delay_def cancelled_in_refs_def
      completion_def drop_controls_def updateJobStatus_def
      toast_def demo_contacts demo_call_sel no_controls_def Let_def
      JSON_stringify_def fun_eq_iff)

theorem terminal_is_final_witness:
  "map_option status
     (job_of (snd (run (demo_call 0 (\<lambda>i. created))
                     [PauseCmd ''j2'', ResumeCmd ''j2'', CancelCmd ''j2'', LoopStep, Tick]
                     (run (demo_call 0 (\<lambda>i. created)) [LoopStep, LoopStep]
                        (startJob (demo_call 0 (\<lambda>i. created)) (demo_world [] []))))) ''j2'')
     = Some Completed
   \<and> jobControlRefs
        (snd (run (demo_call 0 (\<lambda>i. created))
                [PauseCmd ''j2'', ResumeCmd ''j2'', CancelCmd ''j2'', LoopStep, Tick]
                (run (demo_call 0 (\<lambda>i. created)) [LoopStep, LoopStep]
                   (startJob (demo_call 0 (\<lambda>i. created)) (demo_world [] []))))) ''j2''
     = None"
proof -
  let ?c = "demo_call 0 (\<lambda>i. created)"
  let ?j = "\<lparr>job_id = ''j2'', accountId = ''acc-j1'', listId = ''7'',
                         listName = ''Leads'', status = Completed, progress = 100,
                         results = [\<lparr>index = 2, r_email = ''b@x.com'', r_status = Success,
                                     r_data = ''{}''\<rparr>,
                                    \<lparr>index = 1, r_email = ''a@x.com'', r_status = Success,
                                     r_data = ''{}''\<rparr>],
                         totalContacts = 2, elapsedTime = 0, delay = 0\<rparr>"
  have 1: "flags_gone_when_terminal (demo_world [] [])"
    by (simp add: flags_gone_when_terminal_def demo_world_def)
  have 2: "job_of (demo_world [] []) (uuidv4 ?c) = None"
    by (simp add: job_of_def demo_world_def)
  have 3: "job_of (snd (run ?c [LoopStep, LoopStep] (startJob ?c (demo_world [] [])))) ''j2''
             = Some ?j"
    by (simp add: demo_completed job_of_def)
  have 4: "terminal (status ?j)" by (simp add: terminal_def)
  from terminal_is_final [OF 1 2 3 4,
      where ?acts2.0 = "[PauseCmd ''j2'', ResumeCmd ''j2'', CancelCmd ''j2'', LoopStep, Tick]"]
  show ?thesis by simp
qed

subsection \<open>Loops whose control flags were removed\<close>

lemma orphaned_after_discard: "orphaned c (discard_existing (uuidv4 c) w)"
  by (simp add: orphaned_def discard_existing_def removeJob_def drop_controls_def job_of_def
      delete_conv' split: option.splits)

lemma orphaned_completion: "orphaned c w \<Longrightarrow> completion c w = w"
  by (simp add: orphaned_def completion_def)

lemma orphaned_record: "orphaned c w \<Longrightarrow> record_result c i r w = w"
  by (simp add: orphaned_def record_result_def job_of_def)

lemma orphaned_not_cancelled: "orphaned c w \<Longrightarrow> \<not> cancelled_in_refs (uuidv4 c) w"
  by (simp add: orphaned_def cancelled_in_refs_def)

lemma orphaned_loop_top:
  assumes "orphaned c w"
  shows "loop_top c i w = (Finished, w)"
proof -
  from assms have "jobControlRefs w (uuidv4 c) = None" by (simp add: orphaned_def)
  with orphaned_completion [OF assms] show ?thesis by (simp add: loop_top_def)
qed

lemma orphaned_after_delay: "orphaned c w \<Longrightarrow> after_delay c i w = (Fetching i, w)"
  by (simp add: after_delay_def orphaned_not_cancelled)

lemma orphaned_after_pause:
  "orphaned c w \<Longrightarrow>
   after_pause c i w = (if 0 < i \<and> 0 < arg_delay c then DelaySleep i else Fetching i, w)"
  by (simp add: after_pause_def orphaned_not_cancelled orphaned_after_delay)

lemma orphaned_cancel_exit:
  "orphaned c w \<Longrightarrow> cancel_exit c w = toast ''Job Cancelled'' w"
  by (simp add: orphaned_def cancel_exit_def drop_controls_def updateJobStatus_def
      job_of_def toast_def fun_upd_idem)

lemma orphaned_toast: "orphaned c w \<Longrightarrow> orphaned c (toast t w)"
  by (simp add: orphaned_def toast_def job_of_def)

lemma orphaned_step:
  assumes o: "orphaned c w" and p: "p \<noteq> AwaitRemoval"
  shows "orphaned c (snd (loop_step c p w)) \<and> fst (loop_step c p w) \<noteq> AwaitRemoval
         \<and> jobs (snd (loop_step c p w)) = jobs w
         \<and> jobControlRefs (snd (loop_step c p w)) = jobControlRefs w"
proof (cases p)
  case (PauseWait i a)
  then show ?thesis
    using o orphaned_toast [OF o, of "''Job Cancelled''"]
    by (simp add: loop_step_def pause_check_def orphaned_after_pause orphaned_cancel_exit
        toast_def)
next
  case (DelaySleep i)
  then show ?thesis using o by (simp add: loop_step_def orphaned_after_delay)
next
  case (Fetching i)
  then show ?thesis using o
    by (simp add: loop_step_def after_fetch_def orphaned_record orphaned_loop_top)
next
  case Finished
  then show ?thesis using o by (simp add: loop_step_def)
qed (use p in simp)

lemma orphaned_steps:
  "orphaned c w \<Longrightarrow> p \<noteq> AwaitRemoval \<Longrightarrow>
   orphaned c (snd (run c (replicate n LoopStep) (p, w)))
   \<and> jobs (snd (run c (replicate n LoopStep) (p, w))) = jobs w
   \<and> jobControlRefs (snd (run c (replicate n LoopStep) (p, w))) = jobControlRefs w"
proof (induction n arbitrary: p w)
  case 0
  then show ?case by (simp add: run_def)
next
  case (Suc n)
  from orphaned_step [OF Suc.prems]
  have o: "orphaned c (snd (loop_step c p w))" and q: "fst (loop_step c p w) \<noteq> AwaitRemoval"
    and j: "jobs (snd (loop_step c p w)) = jobs w"
    and r: "jobControlRefs (snd (loop_step c p w)) = jobControlRefs w"
    by auto
  have "run c (replicate (Suc n) LoopStep) (p, w)
          = run c (replicate n LoopStep) (fst (loop_step c p w), snd (loop_step c p w))"
    by (simp add: run_def apply_action_def)
  with Suc.IH [OF o q] j r show ?case by simp
qed

text \<open>
  Claim C7, as amended. After an external removal has deleted the control flags and the
  published job of a running loop, no number of further loop steps changes the published
  jobs or the flag table, and the completion step changes nothing. A loop suspended in the
  request returns when the answer arrives, at the check at the top of the next iteration
  or at the completion step. A loop suspended in the delay, or in the pause loop with
  \<open>isPaused\<close> clear, passes the cancellation re-checks, which read absent flags as not
  cancelled, submits the current contact, and returns when that answer arrives. The loop
  suspended in the pause loop with \<open>isPaused\<close> still set is not covered.
\<close>

theorem orphaned_loop_publishes_nothing:
  assumes gone: "jobControlRefs w (uuidv4 c) = None" "job_of w (uuidv4 c) = None"
    and p: "p \<noteq> AwaitRemoval" and np: "\<not> isPaused (heap w a)"
    and i: "i < length (contacts_of c)"
  shows "jobs (snd (run c (replicate n LoopStep) (p, w))) = jobs w
       \<and> jobControlRefs (snd (run c (replicate n LoopStep) (p, w))) = jobControlRefs w
       \<and> completion c w = w
       \<and> loop_step c (Fetching i) w = (Finished, w)
       \<and> run c [LoopStep, LoopStep] (DelaySleep i, w) = (Finished, w)
       \<and> run c [LoopStep, LoopStep, LoopStep] (PauseWait i a, w) = (Finished, w)"
proof -
  from gone have o: "orphaned c w" by (simp add: orphaned_def)
  have f: "loop_step c (Fetching k) w = (Finished, w)" for k
    using o by (simp add: loop_step_def after_fetch_def orphaned_record orphaned_loop_top)
  have d: "loop_step c (DelaySleep k) w = (Fetching k, w)" for k
    using o by (simp add: loop_step_def orphaned_after_delay)
  have pw: "loop_step c (PauseWait i a) w
              = (if 0 < i \<and> 0 < arg_delay c then DelaySleep i else Fetching i, w)"
    using o np by (simp add: loop_step_def pause_check_def orphaned_after_pause)
  have fin: "loop_step c Finished w = (Finished, w)" by (simp add: loop_step_def)
  show ?thesis
    using orphaned_steps [OF o p, of n] orphaned_completion [OF o] f d pw fin
    by (simp add: run_def apply_action_def)
qed

lemma demo_delayed_discard:
  "run (demo_call 1 (\<lambda>i. created)) [LoopStep, Discard ''j2'']
     (startJob (demo_call 1 (\<lambda>i. created)) (demo_world [] []))
   = (DelaySleep 1,
      \<lparr>jobs = [], jobControlRefs = Map.empty, heap = (\<lambda>_. no_controls), fresh = 1,
       toasts = [''Starting Job'']\<rparr>)"
  by (simp add: demo_start run_def apply_action_def loop_step_def after_fetch_def
      record_result_def submission_result_def response_data_def created_def
      loop_top_def pause_check_def after_pause_def after_delay_def cancelled_in_refs_def
      discard_existing_def removeJob_def drop_controls_def
      toast_def demo_contacts demo_call_sel no_controls_def Let_def
      JSON_stringify_def fun_eq_iff)

text \<open>
  Claim C7 as stated has the loop return at its next checkpoint. Here the removal comes
  while the loop sleeps in the delay before the second contact; the next checkpoint, the
  re-check after the delay, lets the loop go on to submit that contact.
\<close>

theorem orphaned_loop_counterexample:
  "fst (run (demo_call 1 (\<lambda>i. created)) [LoopStep, Discard ''j2'']
         (startJob (demo_call 1 (\<lambda>i. created)) (demo_world [] []))) = DelaySleep 1
   \<and> jobControlRefs (snd (run (demo_call 1 (\<lambda>i. created)) [LoopStep, Discard ''j2'']
         (startJob (demo_call 1 (\<lambda>i. created)) (demo_world [] [])))) ''j2'' = None
   \<and> fst (run (demo_call 1 (\<lambda>i. created)) [LoopStep, Discard ''j2'', LoopStep]
         (startJob (demo_call 1 (\<lambda>i. created)) (demo_world [] []))) = Fetching 1"
proof -
  let ?c = "demo_call 1 (\<lambda>i. created)"
  let ?init = "startJob ?c (demo_world [] [])"
  have "run ?c [LoopStep, Discard ''j2'', LoopStep] ?init
          = apply_action ?c LoopStep (run ?c [LoopStep, Discard ''j2''] ?init)"
    by (simp add: run_def)
  then show ?thesis
    by (simp add: demo_delayed_discard apply_action_def loop_step_def after_delay_def
        cancelled_in_refs_def)
qed

theorem orphaned_loop_publishes_nothing_witness:
  "run (demo_call 1 (\<lambda>i. created)) [LoopStep, Discard ''j2'', LoopStep, LoopStep]
     (startJob (demo_call 1 (\<lambda>i. created)) (demo_world [] []))
   = (Finished,
      \<lparr>jobs = [], jobControlRefs = Map.empty, heap = (\<lambda>_. no_controls), fresh = 1,
       toasts = [''Starting Job'']\<rparr>)"
proof -
  let ?c = "demo_call 1 (\<lambda>i. created)"
  let ?init = "startJob ?c (demo_world [] [])"
  let ?w = "\<lparr>jobs = [], jobControlRefs = Map.empty, heap = (\<lambda>_. no_controls), fresh = 1,
       toasts = [''Starting Job'']\<rparr>"
  have 1: "jobControlRefs ?w (uuidv4 ?c) = None" by simp
  have 2: "job_of ?w (uuidv4 ?c) = None" by (simp add: job_of_def)
  have 3: "DelaySleep 1 \<noteq> AwaitRemoval" by simp
  have 4: "\<not> isPaused (heap ?w 0)" by (simp add: no_controls_def)
  have 5: "1 < length (contacts_of ?c)" by (simp add: demo_contacts)
  have "run ?c [LoopStep, Discard ''j2'', LoopStep, LoopStep] ?init
          = run ?c [LoopStep, LoopStep] (run ?c [LoopStep, Discard ''j2''] ?init)"
    by (simp add: run_def)
  with orphaned_loop_publishes_nothing [OF 1 2 3 4 5] show ?thesis
    by (simp add: demo_delayed_discard)
qed

text \<open>
  The case left out: the pause loop reads the flags through the reference \<open>controls\<close> taken
  before the removal. With \<open>isPaused\<close> set and the object no longer in the table, no command
  can reach it, and the loop polls for ever, whatever happens next.
\<close>

lemma paused_orphan_step:
  assumes "\<forall>k. jobControlRefs w k \<noteq> Some a" and "isPaused (heap w a)"
    and "\<not> isCancelled (heap w a)"
  shows "fst (apply_action c act (PauseWait i a, w)) = PauseWait i a
       \<and> (\<forall>k. jobControlRefs (snd (apply_action c act (PauseWait i a, w))) k \<noteq> Some a)
       \<and> isPaused (heap (snd (apply_action c act (PauseWait i a, w))) a)
       \<and> \<not> isCancelled (heap (snd (apply_action c act (PauseWait i a, w))) a)"
  using assms
  by (cases act)
     (auto simp: apply_action_def loop_step_def pause_check_def pauseJob_def resumeJob_def
        cancelJob_def toast_def updateJobStatus_def tick_def discard_existing_def
        removeJob_def drop_controls_def split: option.splits)

lemma paused_orphan_never_returns:
  "\<forall>k. jobControlRefs w k \<noteq> Some a \<Longrightarrow> isPaused (heap w a) \<Longrightarrow> \<not> isCancelled (heap w a)
   \<Longrightarrow> fst (run c acts (PauseWait i a, w)) = PauseWait i a"
proof (induction acts arbitrary: w)
  case Nil
  then show ?case by (simp add: run_def)
next
  case (Cons act acts)
  let ?s = "apply_action c act (PauseWait i a, w)"
  from paused_orphan_step [OF Cons.prems, of c act i]
  have p: "fst ?s = PauseWait i a" and r: "\<forall>k. jobControlRefs (snd ?s) k \<noteq> Some a"
    and h: "isPaused (heap (snd ?s) a)" "\<not> isCancelled (heap (snd ?s) a)"
    by auto
  from p have s: "?s = (PauseWait i a, snd ?s)" by (metis prod.collapse)
  have "run c (act # acts) (PauseWait i a, w) = run c acts ?s" by (simp add: run_def)
  also have "\<dots> = run c acts (PauseWait i a, snd ?s)" using s by simp
  finally show ?case using Cons.IH [OF r h] by simp
qed


lemma demo_paused_discard:
  "run (demo_call 0 (\<lambda>i. created)) [PauseCmd ''j2'', LoopStep, Discard ''j2'']
     (startJob (demo_call 0 (\<lambda>i. created)) (demo_world [] []))
   = (PauseWait 1 0,
      \<lparr>jobs = [], jobControlRefs = Map.empty,
       heap = (\<lambda>_. no_controls)(0 := \<lparr>isPaused = True, isCancelled = False\<rparr>), fresh = 1,
       toasts = [''Starting Job'', ''Job Paused'']\<rparr>)"
  by (simp add: demo_start run_def apply_action_def loop_step_def after_fetch_def
      record_result_def submission_result_def response_data_def created_def
      loop_top_def pause_check_def after_pause_def after_delay_def cancelled_in_refs_def
      discard_existing_def removeJob_def drop_controls_def pauseJob_def updateJobStatus_def
      toast_def demo_contacts demo_call_sel no_controls_def Let_def
      JSON_stringify_def fun_eq_iff)

lemma demo_paused_orphan_never_returns:
  "fst (run (demo_call 0 (\<lambda>i. created)) ([PauseCmd ''j2'', LoopStep, Discard ''j2''] @ acts)
         (startJob (demo_call 0 (\<lambda>i. created)) (demo_world [] [])))
     = PauseWait 1 0"
proof -
  let ?c = "demo_call 0 (\<lambda>i. created)"
  let ?w = "\<lparr>jobs = [], jobControlRefs = Map.empty,
       heap = (\<lambda>_. no_controls)(0 := \<lparr>isPaused = True, isCancelled = False\<rparr>), fresh = 1,
       toasts = [''Starting Job'', ''Job Paused'']\<rparr>"
  have "run ?c ([PauseCmd ''j2'', LoopStep, Discard ''j2''] @ acts)
          (startJob ?c (demo_world [] []))
        = run ?c acts (run ?c [PauseCmd ''j2'', LoopStep, Discard ''j2'']
          (startJob ?c (demo_world [] [])))"
    by (simp add: run_def)
  also have "\<dots> = run ?c acts (PauseWait 1 0, ?w)" by (simp only: demo_paused_discard)
  finally show ?thesis
    using paused_orphan_never_returns [of ?w 0 ?c acts 1] by simp
qed

subsection \<open>One job per account\<close>

lemma one_job_view:
  "one_job_per_account w
     = (distinct (map fst (view w)) \<and> distinct (map (fst \<circ> snd) (view w))
        \<and> list_all (\<lambda>(k, a, i). i = k \<and> k \<noteq> []) (view w))"
  by (simp add: one_job_per_account_def view_def comp_def case_prod_beta list_all_iff)

lemma account_view:
  "(jobs_of_account w A = []) = (A \<notin> set (map (fst \<circ> snd) (view w)))"
  by (auto simp: jobs_of_account_def view_def filter_empty_conv image_iff)

lemma view_update_same:
  "map_of al k = Some j \<Longrightarrow> accountId j' = accountId j \<Longrightarrow> job_id j' = job_id j \<Longrightarrow>
   map (\<lambda>(k, j). (k, accountId j, job_id j)) (AList.update k j' al)
     = map (\<lambda>(k, j). (k, accountId j, job_id j)) al"
  by (induction al) (auto split: if_splits)

lemma view_toast [simp]: "view (toast t w) = view w"
  by (simp add: view_def toast_def)

lemma view_drop_controls [simp]: "view (drop_controls k w) = view w"
  by (simp add: view_def drop_controls_def)

lemma view_updateJobStatus [simp]: "view (updateJobStatus k st w) = view w"
  by (simp add: view_def updateJobStatus_def view_update_same split: option.splits)

lemma view_record_result [simp]: "view (record_result c i r w) = view w"
  by (simp add: view_def record_result_def Let_def view_update_same split: option.splits)

lemma view_cancel_exit [simp]: "view (cancel_exit c w) = view w"
  by (simp add: cancel_exit_def)

lemma view_completion [simp]: "view (completion c w) = view w"
  by (simp add: completion_def split: option.splits)

lemma view_after_delay [simp]: "view (snd (after_delay c i w)) = view w"
  by (simp add: after_delay_def)

lemma view_after_pause [simp]: "view (snd (after_pause c i w)) = view w"
  by (simp add: after_pause_def)

lemma view_pause_check [simp]: "view (snd (pause_check c i a w)) = view w"
  by (simp add: pause_check_def)

lemma view_loop_top [simp]: "view (snd (loop_top c i w)) = view w"
  by (simp add: loop_top_def split: option.splits)

lemma view_loop_step: "p \<noteq> AwaitRemoval \<Longrightarrow> view (snd (loop_step c p w)) = view w"
  by (cases p) (simp_all add: loop_step_def after_fetch_def)

lemma view_pauseJob [simp]: "view (pauseJob k w) = view w"
  by (simp add: pauseJob_def split: option.splits) (simp add: view_def)

lemma view_resumeJob [simp]: "view (resumeJob k w) = view w"
  by (simp add: resumeJob_def split: option.splits) (simp add: view_def)

lemma view_cancelJob [simp]: "view (cancelJob k w) = view w"
  by (simp add: cancelJob_def split: option.splits) (simp add: view_def)

lemma view_tick: "distinct (map fst (jobs w)) \<Longrightarrow> view (tick w) = view w"
  by (simp add: view_def tick_def tick_jobs_eq bump_def case_prod_beta comp_def)

lemma pc_loop_top: "fst (loop_top c i w) \<noteq> AwaitRemoval"
  by (simp add: loop_top_def pause_check_def after_pause_def after_delay_def
      split: option.splits)

lemma pc_loop_step: "fst (loop_step c p w) \<noteq> AwaitRemoval"
  by (cases p)
     (simp_all add: loop_step_def after_fetch_def install_def Let_def pc_loop_top
        pause_check_def after_pause_def after_delay_def)

lemma one_job_wf: "one_job_per_account w = wf_jobs (jobs w)"
  by (simp add: one_job_per_account_def wf_jobs_def)

lemma set_update_subset: "set (AList.update k v al) \<subseteq> insert (k, v) (set al)"
  by (induction al) auto

lemma wf_jobs_update:
  assumes "wf_jobs al" and "\<forall>q \<in> set al. accountId (snd q) \<noteq> accountId v"
    and "job_id v = k" and "k \<noteq> []"
  shows "wf_jobs (AList.update k v al)"
  using assms
proof (induction al)
  case Nil
  then show ?case by (simp add: wf_jobs_def)
next
  case (Cons p al)
  obtain k' j' where p: "p = (k', j')" by (cases p)
  show ?case
  proof (cases "k' = k")
    case True
    with Cons.prems p show ?thesis
      by (auto simp: wf_jobs_def image_iff)
  next
    case False
    from Cons.prems p have wf: "wf_jobs al" and no: "\<forall>q \<in> set al. accountId (snd q) \<noteq> accountId v"
      by (auto simp: wf_jobs_def)
    from Cons.IH [OF wf no Cons.prems(3,4)] have ih: "wf_jobs (AList.update k v al)" .
    have sub: "set (AList.update k v al) \<subseteq> insert (k, v) (set al)"
      by (rule set_update_subset)
    have "accountId j' \<notin> (accountId \<circ> snd) ` set (AList.update k v al)"
    proof
      assume "accountId j' \<in> (accountId \<circ> snd) ` set (AList.update k v al)"
      then obtain q where q: "q \<in> set (AList.update k v al)" "accountId (snd q) = accountId j'"
        by auto
      with sub have "q = (k, v) \<or> q \<in> set al" by auto
      then show False
      proof
        assume "q = (k, v)"
        with q Cons.prems(2) p show False by auto
      next
        assume "q \<in> set al"
        with q Cons.prems(1) p show False by (force simp: wf_jobs_def image_iff)
      qed
    qed
    moreover have "k' \<notin> fst ` set (AList.update k v al)"
      using sub False Cons.prems(1) p by (force simp: wf_jobs_def image_iff)
    ultimately show ?thesis
      using ih False Cons.prems(1) p by (simp add: wf_jobs_def)
  qed
qed

lemma filter_account_update:
  "\<forall>q \<in> set al. accountId (snd q) \<noteq> A \<Longrightarrow> accountId v = A \<Longrightarrow>
   filter (\<lambda>(k, j). accountId j = A) (AList.update k v al) = [(k, v)]"
  by (induction al) (auto simp: filter_empty_conv split: if_splits)

lemma delete_filter: "AList.delete k al = filter (\<lambda>(k', j). k' \<noteq> k) al"
  by (induction al) auto

lemma wf_jobs_delete: "wf_jobs al \<Longrightarrow> wf_jobs (AList.delete k al)"
  by (simp add: wf_jobs_def delete_filter distinct_map_filter list_all_iff)

lemma no_job_iff: "(jobs_of_account w A = []) = (\<forall>q \<in> set (jobs w). accountId (snd q) \<noteq> A)"
  by (auto simp: jobs_of_account_def filter_empty_conv)

lemma same_view:
  assumes "view w' = view w"
  shows "one_job_per_account w' = one_job_per_account w"
    and "(jobs_of_account w' A = []) = (jobs_of_account w A = [])"
  using assms by (simp_all add: one_job_view account_view)

lemma view_install:
  "view (snd (install c w)) = view (w\<lparr>jobs := AList.update (uuidv4 c) (newJob c) (jobs w)\<rparr>)"
  by (simp add: install_def Let_def newJob_def) (simp add: view_def toast_def)

lemma install_keeps_one_job:
  assumes "one_job_per_account w" and "jobs_of_account w (arg_accountId c) = []"
    and "uuidv4 c \<noteq> []"
  shows "one_job_per_account (snd (install c w))"
proof -
  have "wf_jobs (AList.update (uuidv4 c) (newJob c) (jobs w))"
    using assms by (intro wf_jobs_update) (simp_all add: one_job_wf no_job_iff newJob_def)
  then have "one_job_per_account (w\<lparr>jobs := AList.update (uuidv4 c) (newJob c) (jobs w)\<rparr>)"
    by (simp add: one_job_wf)
  then show ?thesis using same_view(1) [OF view_install] by simp
qed

lemma install_other_account:
  assumes "B \<noteq> arg_accountId c" and "jobs_of_account w B = []"
  shows "jobs_of_account (snd (install c w)) B = []"
proof -
  have "\<forall>q \<in> set (AList.update (uuidv4 c) (newJob c) (jobs w)). accountId (snd q) \<noteq> B"
    using assms set_update_subset [of "uuidv4 c" "newJob c" "jobs w"]
    by (auto simp: no_job_iff newJob_def)
  then have "jobs_of_account (w\<lparr>jobs := AList.update (uuidv4 c) (newJob c) (jobs w)\<rparr>) B = []"
    by (simp add: no_job_iff)
  then show ?thesis using same_view(2) [OF view_install] by simp
qed

lemma jobs_discard: "jobs (discard_existing k w) = AList.delete k (jobs w)"
  by (simp add: discard_existing_def removeJob_def drop_controls_def split: option.splits)

lemma discard_keeps_one_job:
  "one_job_per_account w \<Longrightarrow> one_job_per_account (discard_existing k w)"
  by (simp add: one_job_wf jobs_discard wf_jobs_delete)

lemma discard_other_account:
  "jobs_of_account w B = [] \<Longrightarrow> jobs_of_account (discard_existing k w) B = []"
  by (auto simp: no_job_iff jobs_discard delete_filter)

lemma only_job_of_account:
  "distinct (map (accountId \<circ> snd) al) \<Longrightarrow> (k, j) \<in> set al \<Longrightarrow> (k', j') \<in> set al \<Longrightarrow>
   accountId j' = accountId j \<Longrightarrow> k' = k"
proof (induction al)
  case Nil
  then show ?case by simp
next
  case (Cons p al)
  then show ?case by (force simp: image_iff)
qed

lemma discard_found_job:
  assumes wf: "one_job_per_account w"
    and f: "find (\<lambda>job. accountId job = A) (map snd (jobs w)) = Some job"
  shows "job_id job \<noteq> []" and "jobs_of_account (discard_existing (job_id job) w) A = []"
proof -
  from f have "job \<in> set (map snd (jobs w))" and a: "accountId job = A"
    by (auto simp: find_Some_iff)
  then obtain k where k: "(k, job) \<in> set (jobs w)" by auto
  from wf k have id: "job_id job = k" and ne: "k \<noteq> []"
    by (auto simp: one_job_per_account_def list_all_iff)
  from ne id show "job_id job \<noteq> []" by simp
  from wf have d: "distinct (map (accountId \<circ> snd) (jobs w))"
    by (simp add: one_job_per_account_def)
  have "\<forall>q \<in> set (AList.delete k (jobs w)). accountId (snd q) \<noteq> A"
  proof
    fix q assume q: "q \<in> set (AList.delete k (jobs w))"
    then have m: "(fst q, snd q) \<in> set (jobs w)" and n: "fst q \<noteq> k"
      by (auto simp: delete_filter)
    show "accountId (snd q) \<noteq> A"
    proof
      assume "accountId (snd q) = A"
      with only_job_of_account [OF d k m] a n show False by simp
    qed
  qed
  then show "jobs_of_account (discard_existing (job_id job) w) A = []"
    by (simp add: no_job_iff jobs_discard id)
qed

lemma find_none_no_job:
  "find (\<lambda>job. accountId job = A) (map snd (jobs w)) = None \<Longrightarrow> jobs_of_account w A = []"
  by (auto simp: find_None_iff no_job_iff)

lemma awaiting_append: "awaiting (ps @ qs) = awaiting ps @ awaiting qs"
  by (simp add: awaiting_def)

lemma awaiting_single:
  "awaiting [(c, p)] = (if p = AwaitRemoval then [arg_accountId c] else [])"
  by (simp add: awaiting_def)

lemma awaiting_member:
  "(c, AwaitRemoval) \<in> set ps \<Longrightarrow> arg_accountId c \<in> set (awaiting ps)"
  by (force simp: awaiting_def)

lemma sys_inv_invoke:
  assumes inv: "sys_inv (w, ps)" and ok: "allowed (Invoke c) (w, ps)"
  shows "sys_inv (sys_step (Invoke c) (w, ps))"
proof -
  let ?A = "arg_accountId c"
  from inv have wf: "one_job_per_account w" and d: "distinct (awaiting ps)"
    and aw: "\<forall>(c', p) \<in> set ps. p = AwaitRemoval \<longrightarrow>
               jobs_of_account w (arg_accountId c') = [] \<and> uuidv4 c' \<noteq> []"
    by (auto simp: sys_inv_def)
  from ok have cl: "closure_jobs c = jobs w" and ne: "uuidv4 c \<noteq> []"
    and na: "?A \<notin> set (awaiting ps)"
    by (simp_all add: allowed_def)
  have other: "arg_accountId c' \<noteq> ?A" if "(c', AwaitRemoval) \<in> set ps" for c'
    using awaiting_member [OF that] na by auto
  let ?s = "startJob c w"
  have goal: "one_job_per_account (snd ?s)
      \<and> (\<forall>(c', p) \<in> set ps. p = AwaitRemoval \<longrightarrow>
            jobs_of_account (snd ?s) (arg_accountId c') = [])
      \<and> (fst ?s = AwaitRemoval \<longrightarrow> jobs_of_account (snd ?s) ?A = [])"
  proof (cases "find (\<lambda>acc. acc_id acc = ?A) (accounts c)")
    case None
    then have "?s = (Finished, toast ''Account not found'' w)" by (simp add: startJob_def)
    with wf aw show ?thesis
      by (auto simp: same_view [of "toast ''Account not found'' w" w])
  next
    case (Some account)
    show ?thesis
    proof (cases "contacts_of c = []")
      case True
      with Some have "?s = (Finished, toast ''No Valid Contacts'' w)"
        by (simp add: startJob_def)
      with wf aw show ?thesis
        by (auto simp: same_view [of "toast ''No Valid Contacts'' w" w])
    next
      case False
      show ?thesis
      proof (cases "find (\<lambda>job. accountId job = ?A) (map snd (jobs w))")
        case None
        with Some False cl have s: "?s = install c w" by (simp add: startJob_def)
        from find_none_no_job [OF None] have no: "jobs_of_account w ?A = []" .
        have "fst (install c w) \<noteq> AwaitRemoval"
          by (simp add: install_def Let_def pc_loop_top)
        with install_keeps_one_job [OF wf no ne] install_other_account other aw s
        show ?thesis by auto
      next
        case (Some job)
        from discard_found_job [OF wf Some]
        have id: "job_id job \<noteq> []"
          and gone: "jobs_of_account (discard_existing (job_id job) w) ?A = []" by auto
        from \<open>find (\<lambda>acc. acc_id acc = ?A) (accounts c) = Some account\<close> False cl Some id
        have s: "?s = (AwaitRemoval, discard_existing (job_id job) w)"
          by (simp add: startJob_def)
        from discard_keeps_one_job [OF wf] discard_other_account gone aw s
        show ?thesis by auto
      qed
    qed
  qed
  have "distinct (awaiting (ps @ [(c, fst ?s)]))"
    using d na by (simp add: awaiting_append awaiting_single)
  with goal aw ne show ?thesis
    by (auto simp: sys_inv_def sys_step_def)
qed

lemma sys_inv_advance:
  assumes inv: "sys_inv (w, ps)"
  shows "sys_inv (sys_step (Advance n) (w, ps))"
proof (cases "n < length ps")
  case False
  with inv show ?thesis by (simp add: sys_step_def)
next
  case True
  obtain c p where cp: "ps ! n = (c, p)" by (cases "ps ! n")
  let ?pre = "take n ps" and ?post = "drop (Suc n) ps"
  let ?r = "loop_step c p w"
  have ps: "ps = ?pre @ (c, p) # ?post"
    using True cp id_take_nth_drop by metis
  have ps': "ps[n := (c, fst ?r)] = ?pre @ (c, fst ?r) # ?post"
    using True by (simp add: upd_conv_take_nth_drop)
  from inv have wf: "one_job_per_account w" and d: "distinct (awaiting ps)"
    and aw: "\<forall>(c', q) \<in> set ps. q = AwaitRemoval \<longrightarrow>
               jobs_of_account w (arg_accountId c') = [] \<and> uuidv4 c' \<noteq> []"
    by (auto simp: sys_inv_def)
  have rest: "set ?pre \<union> set ?post \<subseteq> set ps"
    by (meson Un_least set_drop_subset set_take_subset)
  have not_aw: "fst ?r \<noteq> AwaitRemoval" by (rule pc_loop_step)
  have aw': "awaiting (ps[n := (c, fst ?r)]) = awaiting ?pre @ awaiting ?post"
    unfolding ps' using not_aw by (simp add: awaiting_def)
  have aw0: "awaiting ps = awaiting ?pre @ awaiting [(c, p)] @ awaiting ?post"
    by (subst ps) (simp add: awaiting_def)
  have d': "distinct (awaiting (ps[n := (c, fst ?r)]))"
    using d unfolding aw' aw0 by auto
  have step: "sys_step (Advance n) (w, ps) = (snd ?r, ps[n := (c, fst ?r)])"
    using True cp by (simp add: sys_step_def)
  show ?thesis
  proof (cases "p = AwaitRemoval")
    case False
    then have v: "view (snd ?r) = view w" by (rule view_loop_step)
    have "\<forall>(c', q) \<in> set (ps[n := (c, fst ?r)]). q = AwaitRemoval \<longrightarrow>
            jobs_of_account (snd ?r) (arg_accountId c') = [] \<and> uuidv4 c' \<noteq> []"
      unfolding ps' using aw rest not_aw by (auto simp: same_view [OF v])
    with wf d' show ?thesis
      unfolding step by (simp add: sys_inv_def same_view [OF v])
  next
    case A: True
    then have r: "?r = install c w" by (simp add: loop_step_def)
    from A ps have mem: "(c, AwaitRemoval) \<in> set ps" by (metis in_set_conv_decomp)
    with aw have no: "jobs_of_account w (arg_accountId c) = []" and ne: "uuidv4 c \<noteq> []"
      by auto
    have wf': "one_job_per_account (snd ?r)"
      unfolding r by (rule install_keeps_one_job [OF wf no ne])
    have "jobs_of_account (snd ?r) (arg_accountId c') = [] \<and> uuidv4 c' \<noteq> []"
      if m: "(c', AwaitRemoval) \<in> set ?pre \<union> set ?post" for c'
    proof -
      from m have "arg_accountId c' \<in> set (awaiting ?pre) \<union> set (awaiting ?post)"
        by (auto dest: awaiting_member)
      with d A have "arg_accountId c' \<noteq> arg_accountId c"
        unfolding aw0 by (auto simp: awaiting_single)
      moreover from m rest aw have "jobs_of_account w (arg_accountId c') = []"
        and "uuidv4 c' \<noteq> []" by auto
      ultimately show ?thesis unfolding r by (simp add: install_other_account)
    qed
    then have "\<forall>(c', q) \<in> set (ps[n := (c, fst ?r)]). q = AwaitRemoval \<longrightarrow>
            jobs_of_account (snd ?r) (arg_accountId c') = [] \<and> uuidv4 c' \<noteq> []"
      unfolding ps' using not_aw by auto
    with wf' d' show ?thesis unfolding step by (simp add: sys_inv_def)
  qed
qed

lemma sys_inv_same_view:
  assumes inv: "sys_inv (w, ps)" and v: "view w' = view w"
  shows "sys_inv (w', ps)"
  using inv by (auto simp: sys_inv_def same_view [OF v])

lemma sys_inv_step:
  assumes inv: "sys_inv s" and ok: "allowed e s"
  shows "sys_inv (sys_step e s)"
proof -
  obtain w ps where s: "s = (w, ps)" by (cases s)
  from inv s have dk: "distinct (map fst (jobs w))"
    by (simp add: sys_inv_def one_job_per_account_def)
  show ?thesis
  proof (cases e)
    case (Invoke c)
    with sys_inv_invoke inv ok s show ?thesis by simp
  next
    case (Advance n)
    with sys_inv_advance inv s show ?thesis by simp
  next
    case (Pause k)
    with sys_inv_same_view [of w ps "pauseJob k w"] inv s show ?thesis
      by (simp add: sys_step_def)
  next
    case (Resume k)
    with sys_inv_same_view [of w ps "resumeJob k w"] inv s show ?thesis
      by (simp add: sys_step_def)
  next
    case (Cancel k)
    with sys_inv_same_view [of w ps "cancelJob k w"] inv s show ?thesis
      by (simp add: sys_step_def)
  next
    case Timer
    with sys_inv_same_view [of w ps "tick w"] view_tick [OF dk] inv s show ?thesis
      by (simp add: sys_step_def)
  qed
qed

lemma sys_inv_run: "sys_inv s \<Longrightarrow> allowed_run es s \<Longrightarrow> sys_inv (sys_run es s)"
proof (induction es arbitrary: s)
  case Nil
  then show ?case by (simp add: sys_run_def)
next
  case (Cons e es)
  from Cons.prems have "sys_inv (sys_step e s)" and "allowed_run es (sys_step e s)"
    by (auto intro: sys_inv_step)
  from Cons.IH [OF this] show ?case by (simp add: sys_run_def)
qed

lemma sys_run_append: "sys_run (es @ fs) s = sys_run fs (sys_run es s)"
  by (simp add: sys_run_def)

lemma allowed_run_append:
  "allowed_run (es @ fs) s = (allowed_run es s \<and> allowed_run fs (sys_run es s))"
  by (induction es arbitrary: s) (simp_all add: sys_run_def)

lemma proc_untouched:
  "Advance n \<notin> set es \<Longrightarrow> n < length (snd s) \<Longrightarrow>
   n < length (snd (sys_run es s)) \<and> snd (sys_run es s) ! n = snd s ! n"
proof (induction es arbitrary: s)
  case Nil
  then show ?case by (simp add: sys_run_def)
next
  case (Cons e es)
  have "n < length (snd (sys_step e s)) \<and> snd (sys_step e s) ! n = snd s ! n"
    using Cons.prems by (cases e) (auto simp: sys_step_def nth_append)
  with Cons.IH [of "sys_step e s"] Cons.prems(1) show ?case
    by (simp add: sys_run_def)
qed

lemma find_job_of_account:
  "distinct (map (accountId \<circ> snd) al) \<Longrightarrow> (k, j) \<in> set al \<Longrightarrow>
   find (\<lambda>job. accountId job = accountId j) (map snd al) = Some j"
proof (induction al)
  case Nil
  then show ?case by simp
next
  case (Cons p al)
  then show ?case by (cases "p = (k, j)") (force simp: image_iff)+
qed

lemma install_fresh:
  assumes n: "contacts_of c \<noteq> []"
  shows "install c w
           = (Fetching 0,
              toast ''Starting Job''
                (w\<lparr>jobControlRefs := (jobControlRefs w)(uuidv4 c \<mapsto> fresh w),
                   heap := (heap w)(fresh w := \<lparr>isPaused = False, isCancelled = False\<rparr>),
                   fresh := Suc (fresh w),
                   jobs := AList.update (uuidv4 c) (newJob c) (jobs w)\<rparr>))"
  using n
  by (simp add: install_def Let_def loop_top_def pause_check_def after_pause_def
      after_delay_def cancelled_in_refs_def toast_def newJob_def)

lemma sys_inv_initial: "sys_inv (\<lparr>jobs = [], jobControlRefs = Map.empty, heap = h, fresh = 0,
                                  toasts = []\<rparr>, [])"
  by (simp add: sys_inv_def one_job_per_account_def awaiting_def)

text \<open>
  Claim C3, as amended. Take the engine in a state that satisfies the invariant (the idle
  engine does) and events that are allowed: every start is invoked through a current
  callback, with a non-empty new id, and not while an earlier start for the same account
  is in its yield. Then at any time, after any such events, every account has at most one
  published job. A start that passes validation for an account that already has a job (in
  any status) first removes that job and its control flags; whatever allowed events happen
  during its yield, the account has no job until the start resumes; and when it resumes
  exactly one job exists for that account, the new one: its id is the one \<open>uuidv4\<close>
  returned, its status is \<open>running\<close> with \<open>progress = 0\<close> and no results, and
  \<open>totalContacts\<close> is the size of the new batch.
\<close>

theorem one_job_per_account_kept:
  assumes inv: "sys_inv s"
    and any: "allowed_run es s"
    and ok: "allowed_run (es1 @ Invoke c # es2 @ [Advance (length (snd (sys_run es1 s)))]) s"
    and acct: "find (\<lambda>acc. acc_id acc = arg_accountId c) (accounts c) = Some account"
    and n: "contacts_of c \<noteq> []"
    and old: "(old, oj) \<in> set (jobs (fst (sys_run es1 s)))"
    and same: "accountId oj = arg_accountId c"
    and quiet: "Advance (length (snd (sys_run es1 s))) \<notin> set es2"
  shows "one_job_per_account (fst (sys_run es s))
       \<and> job_of (fst (sys_run (es1 @ [Invoke c]) s)) old = None
       \<and> jobControlRefs (fst (sys_run (es1 @ [Invoke c]) s)) old = None
       \<and> jobs_of_account (fst (sys_run (es1 @ [Invoke c]) s)) (arg_accountId c) = []
       \<and> jobs_of_account (fst (sys_run (es1 @ Invoke c # es2) s)) (arg_accountId c) = []
       \<and> jobs_of_account
            (fst (sys_run (es1 @ Invoke c # es2 @ [Advance (length (snd (sys_run es1 s)))]) s))
            (arg_accountId c)
           = [(uuidv4 c, newJob c)]
       \<and> one_job_per_account
            (fst (sys_run (es1 @ Invoke c # es2 @ [Advance (length (snd (sys_run es1 s)))]) s))"
proof -
  let ?A = "arg_accountId c"
  obtain w1 ps1 where s1: "sys_run es1 s = (w1, ps1)" by (cases "sys_run es1 s")
  let ?n = "length ps1"
  from ok have ok1: "allowed_run es1 s" and oki: "allowed (Invoke c) (w1, ps1)"
    and ok2: "allowed_run es2 (sys_step (Invoke c) (w1, ps1))"
    by (simp_all add: allowed_run_append s1)
  from sys_inv_run [OF inv any] have g: "one_job_per_account (fst (sys_run es s))"
    by (simp add: sys_inv_def)
  have inv1: "sys_inv (w1, ps1)" using sys_inv_run [OF inv ok1] s1 by simp
  then have wf1: "one_job_per_account w1" by (simp add: sys_inv_def)
  from old s1 have old1: "(old, oj) \<in> set (jobs w1)" by simp
  from wf1 old1 have id: "job_id oj = old" and ne: "old \<noteq> []"
    by (auto simp: one_job_per_account_def list_all_iff)
  from wf1 have da: "distinct (map (accountId \<circ> snd) (jobs w1))"
    by (simp add: one_job_per_account_def)
  from oki have cl: "closure_jobs c = jobs w1" by (simp add: allowed_def)
  have f: "find (\<lambda>job. accountId job = ?A) (map snd (jobs w1)) = Some oj"
    using find_job_of_account [OF da old1] same by simp
  let ?w2 = "discard_existing old w1"
  have st: "startJob c w1 = (AwaitRemoval, ?w2)"
    using acct n f cl id ne by (simp add: startJob_def)
  let ?s2 = "(?w2, ps1 @ [(c, AwaitRemoval)])"
  have s2: "sys_step (Invoke c) (w1, ps1) = ?s2" by (simp add: sys_step_def st)
  have r2: "sys_run (es1 @ [Invoke c]) s = ?s2"
    by (simp add: sys_run_append s1) (simp add: sys_run_def s2)
  have gone: "job_of ?w2 old = None" "jobControlRefs ?w2 old = None"
    by (simp_all add: job_of_def discard_existing_def removeJob_def drop_controls_def
        delete_conv' split: option.splits)
  have none2: "jobs_of_account ?w2 ?A = []"
    using discard_found_job(2) [OF wf1 f] id by simp
  have inv2: "sys_inv ?s2" using sys_inv_step [OF inv1 oki] s2 by simp
  obtain w3 ps3 where s3: "sys_run es2 ?s2 = (w3, ps3)" by (cases "sys_run es2 ?s2")
  have r3: "sys_run (es1 @ Invoke c # es2) s = (w3, ps3)"
    using sys_run_append [of "es1 @ [Invoke c]" es2 s] r2 s3 by simp
  from ok2 s2 have ok2': "allowed_run es2 ?s2" by simp
  have inv3: "sys_inv (w3, ps3)" using sys_inv_run [OF inv2 ok2'] by (simp only: s3)
  from quiet s1 have q: "Advance ?n \<notin> set es2" by simp
  from proc_untouched [OF q, of ?s2] s3
  have len: "?n < length ps3" and at: "ps3 ! ?n = (c, AwaitRemoval)" by simp_all
  then have "(c, AwaitRemoval) \<in> set ps3" by (metis nth_mem)
  with inv3 have none3: "jobs_of_account w3 ?A = []" by (auto simp: sys_inv_def)
  let ?w4 = "snd (install c w3)"
  have s4: "sys_step (Advance ?n) (w3, ps3) = (?w4, ps3[?n := (c, fst (install c w3))])"
    using len at by (simp add: sys_step_def loop_step_def)
  have r4: "sys_run (es1 @ Invoke c # es2 @ [Advance ?n]) s
              = (?w4, ps3[?n := (c, fst (install c w3))])"
    using sys_run_append [of "es1 @ Invoke c # es2" "[Advance ?n]" s] r3 s4
    by (simp add: sys_run_def)
  have j4: "jobs ?w4 = AList.update (uuidv4 c) (newJob c) (jobs w3)"
    by (simp add: install_fresh [OF n] toast_def)
  have one4: "jobs_of_account ?w4 ?A = [(uuidv4 c, newJob c)]"
    unfolding jobs_of_account_def j4
    using none3 by (intro filter_account_update) (simp_all add: no_job_iff newJob_def)
  have inv4: "sys_inv (?w4, ps3[?n := (c, fst (install c w3))])"
    using sys_inv_advance [OF inv3, of ?n] s4 by simp
  then have wf4: "one_job_per_account ?w4" by (simp add: sys_inv_def)
  show ?thesis
    using g gone none2 none3 one4 wf4 unfolding r2 r3 s1 [THEN arg_cong [where f = snd]]
    by (simp add: r4 [unfolded s1] s1)
qed

lemma first_call_started:
  "sys_run [Invoke first_call] idle_system
     = (\<lparr>jobs = [(''j2'', newJob first_call)], jobControlRefs = [''j2'' \<mapsto> 0],
         heap = (\<lambda>_. no_controls), fresh = 1, toasts = [''Starting Job'']\<rparr>,
        [(first_call, Fetching 0)])"
  by (simp add: sys_run_def sys_step_def idle_system_def first_call_def demo_start newJob_def
      demo_call_sel demo_contacts)

lemma second_call_sel:
  "arg_accountId second_call = ''acc-j1''" "uuidv4 second_call = ''j3''"
  "closure_jobs second_call = [(''j2'', newJob first_call)]"
  "contacts_of second_call = contacts_of first_call"
  "accounts second_call = [\<lparr>acc_id = ''acc-j1'', acc_name = ''Main'', apiKey = ''xkeysib''\<rparr>]"
  by (simp_all add: second_call_def first_call_def demo_call_sel contacts_of_def)

theorem one_job_per_account_kept_witness:
  "job_of (fst (sys_run [Invoke first_call, Invoke second_call] idle_system)) ''j2'' = None
   \<and> jobs_of_account
        (fst (sys_run [Invoke first_call, Invoke second_call, Timer, Cancel ''j2'', Advance 0,
                       Advance 1] idle_system)) ''acc-j1''
      = [(''j3'', newJob second_call)]
   \<and> one_job_per_account
        (fst (sys_run [Invoke first_call, Invoke second_call, Timer, Cancel ''j2'', Advance 0,
                       Advance 1] idle_system))"
proof -
  let ?es1 = "[Invoke first_call]"
  let ?es2 = "[Timer, Cancel ''j2'', Advance 0]"
  have len: "length (snd (sys_run ?es1 idle_system)) = 1"
    by (simp add: first_call_started)
  have 1: "sys_inv idle_system"
    by (simp add: idle_system_def demo_world_def sys_inv_def one_job_per_account_def
        awaiting_def)
  have a1: "allowed (Invoke first_call) idle_system"
    by (simp add: allowed_def idle_system_def demo_world_def first_call_def demo_call_sel
        awaiting_def)
  have a2: "allowed (Invoke second_call) (sys_run ?es1 idle_system)"
    by (simp add: first_call_started allowed_def second_call_sel awaiting_def)
  have rest: "allowed_run (?es2 @ [Advance 1]) s" for s
    by (simp add: allowed_def)
  have 2: "allowed_run (?es1 @ Invoke second_call # ?es2
              @ [Advance (length (snd (sys_run ?es1 idle_system)))]) idle_system"
    unfolding len using a1 a2 rest by (simp add: sys_run_def)
  have 3: "find (\<lambda>acc. acc_id acc = arg_accountId second_call) (accounts second_call)
             = Some \<lparr>acc_id = ''acc-j1'', acc_name = ''Main'', apiKey = ''xkeysib''\<rparr>"
    by (simp add: second_call_sel)
  have 4: "contacts_of second_call \<noteq> []"
    by (simp add: second_call_sel first_call_def demo_contacts)
  have 5: "(''j2'', newJob first_call) \<in> set (jobs (fst (sys_run ?es1 idle_system)))"
    by (simp add: first_call_started)
  have 6: "accountId (newJob first_call) = arg_accountId second_call"
    by (simp add: newJob_def second_call_sel first_call_def demo_call_sel)
  have 7: "Advance (length (snd (sys_run ?es1 idle_system))) \<notin> set ?es2"
    unfolding len by simp
  from one_job_per_account_kept [OF 1 2 2 3 4 5 6 7] show ?thesis
    unfolding len by (simp add: second_call_sel)
qed

text \<open>
  Claim C3 as stated has the new job's \<open>totalContacts\<close> distinct from the old job's. A
  batch of two contacts started, through a current callback, for an account whose job had
  two contacts gives a new job with the same \<open>totalContacts\<close>.
\<close>

theorem restart_same_total_counterexample:
  "map_option (\<lambda>j. (accountId j, totalContacts j))
     (job_of (fst (sys_run [Invoke first_call] idle_system)) ''j2'')
     = Some (''acc-j1'', 2)
   \<and> closure_jobs second_call = jobs (fst (sys_run [Invoke first_call] idle_system))
   \<and> map_option (\<lambda>j. (accountId j, totalContacts j))
       (job_of (fst (sys_run [Invoke first_call, Invoke second_call, Advance 1] idle_system))
          ''j3'')
     = Some (''acc-j1'', 2)"
proof -
  have r: "sys_run [Invoke first_call, Invoke second_call, Advance 1] idle_system
             = sys_run [Invoke second_call, Advance 1] (sys_run [Invoke first_call] idle_system)"
    by (simp add: sys_run_def)
  show ?thesis
    unfolding r first_call_started
    by (simp add: sys_run_def sys_step_def startJob_def second_call_sel job_of_def newJob_def
        first_call_def demo_call_sel demo_contacts discard_existing_def removeJob_def
        drop_controls_def loop_step_def install_def Let_def loop_top_def pause_check_def
        after_pause_def after_delay_def cancelled_in_refs_def toast_def no_controls_def)
qed

text \<open>
  The two cases left out. A callback used twice before the next render still holds the
  snapshot without the first job, so the second start removes nothing. And a start invoked
  while an earlier start for the same account is in its yield finds no job to remove and
  installs its own, after which the earlier start resumes and installs too.
\<close>

lemma contacts_of_uuid [simp]: "contacts_of (c\<lparr>uuidv4 := u\<rparr>) = contacts_of c"
  by (simp add: contacts_of_def)

lemma stale_callback_leaves_two_jobs:
  "map fst (jobs_of_account
      (fst (sys_run [Invoke first_call, Invoke (first_call\<lparr>uuidv4 := ''j3''\<rparr>)] idle_system))
      ''acc-j1'')
   = [''j2'', ''j3'']"
proof -
  have r: "sys_run [Invoke first_call, Invoke (first_call\<lparr>uuidv4 := ''j3''\<rparr>)] idle_system
             = sys_run [Invoke (first_call\<lparr>uuidv4 := ''j3''\<rparr>)]
                 (sys_run [Invoke first_call] idle_system)"
    by (simp add: sys_run_def)
  show ?thesis
    unfolding r first_call_started
    by (simp add: sys_run_def sys_step_def startJob_def jobs_of_account_def newJob_def
        first_call_def demo_call_sel demo_contacts
        install_def Let_def loop_top_def pause_check_def
        after_pause_def after_delay_def cancelled_in_refs_def toast_def no_controls_def)
qed


lemma overlapping_starts_leave_two_jobs:
  "map fst (jobs_of_account
      (fst (sys_run [Invoke first_call, Invoke second_call,
                     Invoke (first_call\<lparr>uuidv4 := ''j4''\<rparr>), Advance 1] idle_system))
      ''acc-j1'')
   = [''j4'', ''j3'']"
proof -
  have r: "sys_run [Invoke first_call, Invoke second_call,
                     Invoke (first_call\<lparr>uuidv4 := ''j4''\<rparr>), Advance 1] idle_system
             = sys_run [Invoke second_call, Invoke (first_call\<lparr>uuidv4 := ''j4''\<rparr>), Advance 1]
                 (sys_run [Invoke first_call] idle_system)"
    by (simp add: sys_run_def)
  show ?thesis
    unfolding r first_call_started
    by (simp add: sys_run_def sys_step_def startJob_def jobs_of_account_def newJob_def
        second_call_sel first_call_def demo_call_sel demo_contacts
        discard_existing_def removeJob_def drop_controls_def loop_step_def
        install_def Let_def loop_top_def pause_check_def
        after_pause_def after_delay_def cancelled_in_refs_def toast_def no_controls_def)
qed

end
